theory Spec2Isabelle
  imports Main "HOL-Library.Word"
begin

section \<open>The RXP search engine adapter (src/search_engines/rxp.cc)\<close>

text \<open>
  A shallow embedding of \<^verbatim>\<open>rxp.cc\<close>. Pointers are addresses (\<open>0\<close> is
  \<^verbatim>\<open>nullptr\<close>), the objects made by \<^verbatim>\<open>new\<close> live in explicit stores, the
  static members of \<^verbatim>\<open>RxpMpse\<close> are fields of the process state, and every call
  that leaves the file (the host agent, the match callback, the device library, the
  logger) is a parameter acting on an environment and is recorded in a trace.
  Dereferencing a null pointer is the fault \<open>NullDeref\<close>.
\<close>

subsection \<open>The pattern escaper\<close>

type_synonym byte = "8 word"

text \<open>\<^verbatim>\<open>isalnum\<close> of \<^verbatim>\<open>ctype.h\<close>, in the "C" locale the program runs in.\<close>

definition isalnum :: "byte \<Rightarrow> bool" where
  "isalnum c \<longleftrightarrow>
     (48 \<le> unat c \<and> unat c \<le> 57) \<or> (65 \<le> unat c \<and> unat c \<le> 90) \<or>
     (97 \<le> unat c \<and> unat c \<le> 122)"

text \<open>
  \<^verbatim>\<open>sprintf(hexbyte, "\\x%02x", pat[i])\<close>: the conversion \<^verbatim>\<open>%x\<close> writes its
  argument in base 16 with the digits \<^verbatim>\<open>0123456789abcdef\<close>, most significant
  first; the flag \<^verbatim>\<open>0\<close> and the width \<^verbatim>\<open>2\<close> pad it with zeros on the left to at
  least two characters.
\<close>

definition hex_digit :: "nat \<Rightarrow> char" where
  "hex_digit d = ''0123456789abcdef'' ! d"

fun conv_x :: "nat \<Rightarrow> string" where
  "conv_x n = (if n < 16 then [hex_digit n] else conv_x (n div 16) @ [hex_digit (n mod 16)])"

definition zero_pad :: "nat \<Rightarrow> string \<Rightarrow> string" where
  "zero_pad w s = replicate (w - length s) CHR ''0'' @ s"

definition sprintf_hexbyte :: "byte \<Rightarrow> string" where
  "sprintf_hexbyte b = [CHR 0x5C, CHR ''x''] @ zero_pad 2 (conv_x (unat b))"

text \<open>
  The loop of \<^verbatim>\<open>rxp_escape_pattern\<close>, appending to \<^verbatim>\<open>escpat\<close>. A character of
  the \<^verbatim>\<open>std::string\<close> is the byte itself.
\<close>

fun escape_loop :: "byte list \<Rightarrow> string \<Rightarrow> string" where
  "escape_loop [] escpat = escpat"
| "escape_loop (b # bs) escpat =
     (if \<not> isalnum b then escape_loop bs (escpat @ sprintf_hexbyte b)
      else escape_loop bs (escpat @ [char_of (unat b)]))"

text \<open>
  \<^verbatim>\<open>rxp_escape_pattern(pat, len)\<close>: the argument is the \<^verbatim>\<open>len\<close> bytes at
  \<^verbatim>\<open>pat\<close>; \<open>None\<close> is the \<^verbatim>\<open>nullptr\<close> returned for \<^verbatim>\<open>len == 0\<close>.
\<close>

definition rxp_escape_pattern :: "byte list \<Rightarrow> string option" where
  "rxp_escape_pattern pat =
     (if length pat = 0 then None else Some (escape_loop pat []))"

text \<open>
  The escaper as the specification words it: a byte that is an ASCII letter or digit
  is passed through, any other byte becomes the four characters backslash, \<open>x\<close> and
  its two lowercase hexadecimal digits.
\<close>

definition ascii_letter_or_digit :: "byte \<Rightarrow> bool" where
  "ascii_letter_or_digit b \<longleftrightarrow>
     b \<in> of_nat ` of_char ` set ''0123456789ABCDEFGHIJKLMNOPQRSTUVWXYZabcdefghijklmnopqrstuvwxyz''"

definition spec_escape_byte :: "byte \<Rightarrow> string" where
  "spec_escape_byte b =
     (if ascii_letter_or_digit b then [char_of (unat b)]
      else [CHR 0x5C, CHR ''x'', hex_digit (unat b div 16), hex_digit (unat b mod 16)])"

definition spec_escape :: "byte list \<Rightarrow> string" where
  "spec_escape pat = concat (map spec_escape_byte pat)"

subsection \<open>Pointers, stores and faults\<close>

text \<open>
  An address is a natural number and \<open>0\<close> is \<^verbatim>\<open>nullptr\<close>. An object store is
  the list of the objects allocated so far: \<^verbatim>\<open>new\<close> appends, and the object at
  address \<open>a > 0\<close> is the element \<open>a - 1\<close>. Nothing in the file deletes a pattern
  or an engine instance.
\<close>

type_synonym addr = nat

datatype fault = NullDeref | WildPointer | OutOfBounds

definition deref :: "'a list \<Rightarrow> addr \<Rightarrow> fault + 'a" where
  "deref store a =
     (if a = 0 then Inl NullDeref
      else if a \<le> length store then Inr (store ! (a - 1))
      else Inl WildPointer)"

subsection \<open>Data model\<close>

record UserCtx =
  user :: addr
  user_tree :: addr
  user_list :: addr

definition UserCtx_ctor :: "addr \<Rightarrow> UserCtx" where
  "UserCtx_ctor u = \<lparr>user = u, user_tree = 0, user_list = 0\<rparr>"

text \<open>
  \<^verbatim>\<open>Mpse::PatternDescriptor\<close> is declared in \<^verbatim>\<open>framework/mpse.h\<close>; the file reads
  its members \<^verbatim>\<open>no_case\<close> and \<^verbatim>\<open>negated\<close> only.
\<close>

record PatternDescriptor =
  d_no_case :: bool
  d_negated :: bool

record RxpPattern =
  pat :: "string option"
  ruleid :: "16 word"
  no_case :: bool
  negate :: bool
  userctx :: "UserCtx list"

text \<open>
  The constructor leaves \<^verbatim>\<open>ruleid\<close> uninitialised; its only caller assigns it in
  the next statement.
\<close>

definition RxpPattern_ctor :: "string option \<Rightarrow> PatternDescriptor \<Rightarrow> addr \<Rightarrow> RxpPattern" where
  "RxpPattern_ctor pattern d u =
     \<lparr>pat = pattern, ruleid = 0, no_case = d_no_case d, negate = d_negated d,
      userctx = [UserCtx_ctor u]\<rparr>"

text \<open>
  Calls that leave the file. The host agent (\<^verbatim>\<open>MpseAgent\<close>) and the match callback
  (\<^verbatim>\<open>MpseMatch\<close>) are functions on an environment \<open>'e\<close> that the engine cannot
  see into. \<^verbatim>\<open>build_tree(sc, user, &tree)\<close> and \<^verbatim>\<open>negate_list(user, &list)\<close>
  take the value of the slot and return its new value; their \<^verbatim>\<open>int\<close> results are
  dropped by the file. A slot is named by the address of its pattern and the index of
  its context.
\<close>

record 'e MpseAgent =
  build_tree :: "addr \<Rightarrow> addr \<Rightarrow> addr \<Rightarrow> 'e \<Rightarrow> addr \<times> 'e"
  negate_list :: "addr \<Rightarrow> addr \<Rightarrow> 'e \<Rightarrow> addr \<times> 'e"

type_synonym 'e MpseMatch = "addr \<Rightarrow> addr \<Rightarrow> int \<Rightarrow> addr \<Rightarrow> addr \<Rightarrow> 'e \<Rightarrow> int \<times> 'e"

datatype event =
    LogTruncating int int
  | LogDecodeError int
  | LogMatchLimit nat nat
  | PrepareJob "64 word" int "64 word"
  | BuildTree addr addr "addr \<times> nat"
  | NegateList addr "addr \<times> nat"
  | Match addr addr int addr addr

record 'e RxpMpse =
  agent :: "'e MpseAgent"
  ruleidtbl :: "int \<rightharpoonup> addr"
  instance_id :: "64 word"
  pats :: "addr list"

text \<open>
  The process: the static members of \<^verbatim>\<open>RxpMpse\<close>, the two object stores, the
  environment and the trace of the calls made into it.
\<close>

record 'e process =
  duplicates :: "64 word"
  jobs_submitted :: "64 word"
  match_limit :: "64 word"
  patterns :: "64 word"
  max_pattern_len :: "64 word"
  instances :: "addr list"
  portid :: "32 word"
  mpse_store :: "'e RxpMpse list"
  pattern_store :: "RxpPattern list"
  env :: 'e
  trace :: "event list"

definition process_start :: "'e \<Rightarrow> 'e process" where
  "process_start e =
     \<lparr>duplicates = 0, jobs_submitted = 0, match_limit = 0, patterns = 0,
      max_pattern_len = 0, instances = [], portid = 0, mpse_store = [],
      pattern_store = [], env = e, trace = []\<rparr>"

subsection \<open>Construction and the pattern registry\<close>

text \<open>\<^verbatim>\<open>rxp_ctor\<close>: \<^verbatim>\<open>new RxpMpse(sc, use_gc, a)\<close>.\<close>

definition rxp_ctor :: "'e MpseAgent \<Rightarrow> 'e process \<Rightarrow> addr \<times> 'e process" where
  "rxp_ctor a s =
     (let this = length (mpse_store s) + 1;
          insts = instances s @ [this];
          m = \<lparr>agent = a, ruleidtbl = Map.empty,
               instance_id = of_nat (length insts), pats = []\<rparr>
      in (this, s\<lparr>instances := insts, mpse_store := mpse_store s @ [m]\<rparr>))"

text \<open>
  The scan of \<^verbatim>\<open>add_pattern\<close> for \<^verbatim>\<open>*p->pat == *pattern\<close>; the result \<open>0\<close> is
  \<^verbatim>\<open>rxp_pat\<close> left at \<^verbatim>\<open>nullptr\<close>. Both strings are dereferenced by the
  comparison.
\<close>

fun find_pattern :: "RxpPattern list \<Rightarrow> string option \<Rightarrow> addr list \<Rightarrow> fault + addr" where
  "find_pattern store pattern [] = Inr 0"
| "find_pattern store pattern (p # ps) =
     (case deref store p of
        Inl f \<Rightarrow> Inl f
      | Inr obj \<Rightarrow>
          (case pat obj of
             None \<Rightarrow> Inl NullDeref
           | Some t \<Rightarrow>
               (case pattern of
                  None \<Rightarrow> Inl NullDeref
                | Some t' \<Rightarrow> if t = t' then Inr p else find_pattern store pattern ps)))"

text \<open>
  \<^verbatim>\<open>RxpMpse::add_pattern(sc, pat, len, desc, user)\<close> on the instance at \<open>this\<close>;
  \<open>bytes\<close> are the \<^verbatim>\<open>len\<close> bytes at \<^verbatim>\<open>pat\<close> (\<^verbatim>\<open>len\<close> is an
  \<^verbatim>\<open>unsigned\<close>). The 64-bit counter \<^verbatim>\<open>patterns\<close> is narrowed to the 16-bit
  member \<^verbatim>\<open>ruleid\<close>, which is widened to the \<^verbatim>\<open>int\<close> key of the table.
\<close>

definition add_pattern ::
  "addr \<Rightarrow> byte list \<Rightarrow> PatternDescriptor \<Rightarrow> addr \<Rightarrow> 'e process \<Rightarrow> fault + (int \<times> 'e process)" where
  "add_pattern this bytes desc usr s =
     (let pattern = rxp_escape_pattern bytes in
      case deref (mpse_store s) this of
        Inl f \<Rightarrow> Inl f
      | Inr m \<Rightarrow>
          (case find_pattern (pattern_store s) pattern (pats m) of
             Inl f \<Rightarrow> Inl f
           | Inr rxp_pat \<Rightarrow>
               if rxp_pat \<noteq> 0 then
                 (case deref (pattern_store s) rxp_pat of
                    Inl f \<Rightarrow> Inl f
                  | Inr obj \<Rightarrow>
                      Inr (0, s\<lparr>duplicates := duplicates s + 1,
                                pattern_store := (pattern_store s)
                                  [rxp_pat - 1 := obj\<lparr>userctx := userctx obj @ [UserCtx_ctor usr]\<rparr>]\<rparr>))
               else
                 (let new_pat = length (pattern_store s) + 1;
                      n = patterns s + 1;
                      obj = (RxpPattern_ctor pattern desc usr)\<lparr>ruleid := ucast n\<rparr>;
                      len = (of_nat (length bytes) :: 64 word);
                      m' = m\<lparr>ruleidtbl := (ruleidtbl m)(uint (ruleid obj) \<mapsto> new_pat),
                             pats := pats m @ [new_pat]\<rparr>
                  in Inr (0, s\<lparr>patterns := n,
                               max_pattern_len :=
                                 (if len > max_pattern_len s then len else max_pattern_len s),
                               mpse_store := (mpse_store s)[this - 1 := m'],
                               pattern_store := pattern_store s @ [obj]\<rparr>))))"

text \<open>
  \<^verbatim>\<open>get_pattern_count() { return pats.size(); }\<close>; the size is returned as an
  \<^verbatim>\<open>int\<close>, and a vector of pointers stays far below \<open>2^31\<close> elements.
\<close>

definition get_pattern_count :: "addr \<Rightarrow> 'e process \<Rightarrow> fault + int" where
  "get_pattern_count this s =
     (case deref (mpse_store s) this of
        Inl f \<Rightarrow> Inl f
      | Inr m \<Rightarrow> Inr (int (length (pats m))))"

subsection \<open>Finalisation\<close>

text \<open>
  The inner loop of \<^verbatim>\<open>user_ctor\<close> over the contexts of the pattern at \<open>p\<close>, from
  index \<open>i\<close> on.
\<close>

fun user_ctor_ctxs ::
  "'e MpseAgent \<Rightarrow> addr \<Rightarrow> bool \<Rightarrow> addr \<Rightarrow> nat \<Rightarrow> UserCtx list \<Rightarrow> 'e \<Rightarrow> event list
     \<Rightarrow> UserCtx list \<times> 'e \<times> event list" where
  "user_ctor_ctxs a sc neg p i [] e tr = ([], e, tr)"
| "user_ctor_ctxs a sc neg p i (c # cs) e tr =
     (let (c1, e1, tr1) =
            (if user c \<noteq> 0 then
               (if neg then
                  (let (l, e') = negate_list a (user c) (user_list c) e
                   in (c\<lparr>user_list := l\<rparr>, e', tr @ [NegateList (user c) (p, i)]))
                else
                  (let (t, e') = build_tree a sc (user c) (user_tree c) e
                   in (c\<lparr>user_tree := t\<rparr>, e', tr @ [BuildTree sc (user c) (p, i)])))
             else (c, e, tr));
          (t, e2) = build_tree a sc 0 (user_tree c1) e1;
          c2 = c1\<lparr>user_tree := t\<rparr>;
          (cs', e3, tr3) = user_ctor_ctxs a sc neg p (Suc i) cs e2 (tr1 @ [BuildTree sc 0 (p, i)])
      in (c2 # cs', e3, tr3))"

text \<open>The outer loop of \<^verbatim>\<open>user_ctor\<close> over \<^verbatim>\<open>pats\<close>.\<close>

fun user_ctor_pats ::
  "'e MpseAgent \<Rightarrow> addr \<Rightarrow> addr list \<Rightarrow> RxpPattern list \<Rightarrow> 'e \<Rightarrow> event list
     \<Rightarrow> fault + (RxpPattern list \<times> 'e \<times> event list)" where
  "user_ctor_pats a sc [] store e tr = Inr (store, e, tr)"
| "user_ctor_pats a sc (p # ps) store e tr =
     (case deref store p of
        Inl f \<Rightarrow> Inl f
      | Inr obj \<Rightarrow>
          (let (cs, e', tr') = user_ctor_ctxs a sc (negate obj) p 0 (userctx obj) e tr
           in user_ctor_pats a sc ps (store[p - 1 := obj\<lparr>userctx := cs\<rparr>]) e' tr'))"

definition user_ctor :: "addr \<Rightarrow> addr \<Rightarrow> 'e process \<Rightarrow> fault + 'e process" where
  "user_ctor this sc s =
     (case deref (mpse_store s) this of
        Inl f \<Rightarrow> Inl f
      | Inr m \<Rightarrow>
          (case user_ctor_pats (agent m) sc (pats m) (pattern_store s) (env s) (trace s) of
             Inl f \<Rightarrow> Inl f
           | Inr (store, e, tr) \<Rightarrow> Inr (s\<lparr>pattern_store := store, env := e, trace := tr\<rparr>)))"

definition prep_patterns :: "addr \<Rightarrow> addr \<Rightarrow> 'e process \<Rightarrow> fault + (int \<times> 'e process)" where
  "prep_patterns this sc s =
     (case user_ctor this sc s of Inl f \<Rightarrow> Inl f | Inr s' \<Rightarrow> Inr (0, s'))"

subsection \<open>The device and the search\<close>

text \<open>
  Modelled from the spec: the device library \<^verbatim>\<open>rxp.h\<close> is not part of the
  sources. A decoded response holds the match count, the detected match count and the
  match entries (rule identifier, start offset, length); the widths of these members
  are not known, so they are the numbers the members hold. The calls of the library
  act on the environment; the status codes that the file overwrites without reading
  are left out. \<^verbatim>\<open>rxp_get_responses\<close> returns the packet it stored in
  \<^verbatim>\<open>pkts_burst[0]\<close> and \<^verbatim>\<open>rx_pkts\<close>; \<^verbatim>\<open>rxp_get_response_data\<close> returns its
  status and the contents of \<^verbatim>\<open>rxp_resp\<close> after the call.
\<close>

record rxp_match_data =
  rule_id :: nat
  start_ptr :: nat
  length' :: nat

record rxp_response_data =
  match_count :: nat
  detected_match_count :: nat
  match_data :: "rxp_match_data list"

record 'e rxp_api =
  RXP_MAX_JOB_LENGTH :: int
  rxp_prepare_job :: "32 word \<Rightarrow> 64 word \<Rightarrow> byte list \<Rightarrow> int \<Rightarrow> 64 word \<Rightarrow> 'e \<Rightarrow> addr \<times> 'e"
  rxp_enqueue_job :: "32 word \<Rightarrow> addr \<Rightarrow> 'e \<Rightarrow> 'e"
  rxp_dispatch_jobs :: "32 word \<Rightarrow> 'e \<Rightarrow> 'e"
  rxp_get_responses :: "32 word \<Rightarrow> 'e \<Rightarrow> (addr \<times> nat) \<times> 'e"
  rxp_get_response_data :: "addr \<Rightarrow> 'e \<Rightarrow> int \<times> rxp_response_data"
  rxp_free_buffer :: "addr \<Rightarrow> 'e \<Rightarrow> 'e"

text \<open>
  \<^verbatim>\<open>while (rx_pkts == 0) ret = rxp_get_responses(...)\<close>: the loop has no bound, so
  \<open>None\<close> is a search that never returns.
\<close>

partial_function (option) poll_responses :: "'e rxp_api \<Rightarrow> 32 word \<Rightarrow> 'e \<Rightarrow> (addr \<times> 'e) option" where
  "poll_responses api port e =
     (let r = rxp_get_responses api port e in
      if snd (fst r) = 0 then poll_responses api port (snd r)
      else Some (fst (fst r), snd r))"

text \<open>The loop \<^verbatim>\<open>for ( auto& c : pat->userctx ) mf(...)\<close>; the result of \<^verbatim>\<open>mf\<close> is dropped.\<close>

fun call_matches ::
  "'e MpseMatch \<Rightarrow> int \<Rightarrow> addr \<Rightarrow> UserCtx list \<Rightarrow> 'e \<Rightarrow> event list \<Rightarrow> 'e \<times> event list" where
  "call_matches mf to pv [] e tr = (e, tr)"
| "call_matches mf to pv (c # cs) e tr =
     (let (r, e') = mf (user c) (user_tree c) to pv (user_list c) e
      in call_matches mf to pv cs e' (tr @ [Match (user c) (user_tree c) to pv (user_list c)]))"

text \<open>
  The loop over the match entries. \<^verbatim>\<open>ruleidtbl[rule_id]\<close> is
  \<^verbatim>\<open>std::map::operator[]\<close>: for a key that is not in the table it inserts the key
  with a null pointer and returns that, and \<^verbatim>\<open>pat->userctx\<close> dereferences it.
\<close>

fun dispatch_matches ::
  "(int \<rightharpoonup> addr) \<Rightarrow> RxpPattern list \<Rightarrow> 'e MpseMatch \<Rightarrow> addr \<Rightarrow> rxp_match_data list \<Rightarrow> 'e
     \<Rightarrow> event list \<Rightarrow> fault + ('e \<times> event list)" where
  "dispatch_matches tbl store mf pv [] e tr = Inr (e, tr)"
| "dispatch_matches tbl store mf pv (md # mds) e tr =
     (let to = int (start_ptr md + length' md);
          pat_ptr = (case tbl (int (rule_id md)) of None \<Rightarrow> 0 | Some a \<Rightarrow> a)
      in case deref store pat_ptr of
           Inl f \<Rightarrow> Inl f
         | Inr obj \<Rightarrow>
             (let (e', tr') = call_matches mf to pv (userctx obj) e tr
              in dispatch_matches tbl store mf pv mds e' tr'))"

text \<open>
  \<^verbatim>\<open>RxpMpse::rxp_search(buf, n, mf, pv)\<close> on the instance \<open>m\<close>, in two parts.
  The first part is lines 276 to 300: the clamp of \<^verbatim>\<open>n\<close>, the job, the wait for
  the response and its decoding. It returns the response packet and the decoded
  response.
\<close>

definition rxp_search_job ::
  "'e rxp_api \<Rightarrow> 'e RxpMpse \<Rightarrow> byte list \<Rightarrow> int \<Rightarrow> 'e process
     \<Rightarrow> ('e process \<times> addr \<times> rxp_response_data) option" where
  "rxp_search_job api m buf n s =
     (let s1 = (if n > RXP_MAX_JOB_LENGTH api
                then s\<lparr>trace := trace s @ [LogTruncating n (RXP_MAX_JOB_LENGTH api)]\<rparr> else s);
          n1 = (if n > RXP_MAX_JOB_LENGTH api then RXP_MAX_JOB_LENGTH api else n);
          job_id = jobs_submitted s1 + 1;
          (job_buf, e1) = rxp_prepare_job api (portid s1) job_id buf n1 (instance_id m) (env s1);
          s2 = s1\<lparr>jobs_submitted := job_id,
                  trace := trace s1 @ [PrepareJob job_id n1 (instance_id m)]\<rparr>;
          e2 = rxp_enqueue_job api (portid s2) job_buf e1;
          e3 = rxp_dispatch_jobs api (portid s2) e2
      in case poll_responses api (portid s2) e3 of
           None \<Rightarrow> None
         | Some (pkt, e4) \<Rightarrow>
             (let (ret, rxp_resp) = rxp_get_response_data api pkt e4;
                  s3 = (if ret \<noteq> 0
                        then s2\<lparr>env := e4, trace := trace s2 @ [LogDecodeError ret]\<rparr>
                        else s2\<lparr>env := e4\<rparr>)
              in Some (s3, pkt, rxp_resp)))"

text \<open>
  The second part is lines 302 to 324. The entries
  \<^verbatim>\<open>match_data[0 .. match_count - 1]\<close> are read in order; reading past the end
  of the array is \<open>OutOfBounds\<close>.
\<close>

definition rxp_search_dispatch ::
  "'e rxp_api \<Rightarrow> 'e RxpMpse \<Rightarrow> 'e MpseMatch \<Rightarrow> addr \<Rightarrow> addr \<Rightarrow> rxp_response_data
     \<Rightarrow> 'e process \<Rightarrow> fault + (int \<times> 'e process)" where
  "rxp_search_dispatch api m mf pv pkt rxp_resp s3 =
     (if match_count rxp_resp \<noteq> 0 then
        (let s4 = (if detected_match_count rxp_resp > match_count rxp_resp
                   then s3\<lparr>match_limit := match_limit s3 + 1,
                           trace := trace s3 @
                             [LogMatchLimit (detected_match_count rxp_resp)
                                (match_count rxp_resp)]\<rparr>
                   else s3)
         in case dispatch_matches (ruleidtbl m) (pattern_store s4) mf pv
                   (take (match_count rxp_resp) (match_data rxp_resp))
                   (env s4) (trace s4) of
              Inl f \<Rightarrow> Inl f
            | Inr (e5, tr5) \<Rightarrow>
                if match_count rxp_resp > length (match_data rxp_resp)
                then Inl OutOfBounds
                else Inr (0, s4\<lparr>env := rxp_free_buffer api pkt e5, trace := tr5\<rparr>))
      else Inr (0, s3\<lparr>env := rxp_free_buffer api pkt (env s3)\<rparr>))"

definition rxp_search ::
  "'e rxp_api \<Rightarrow> addr \<Rightarrow> byte list \<Rightarrow> int \<Rightarrow> 'e MpseMatch \<Rightarrow> addr \<Rightarrow> 'e process
     \<Rightarrow> (fault + (int \<times> 'e process)) option" where
  "rxp_search api this buf n mf pv s =
     (case deref (mpse_store s) this of
        Inl f \<Rightarrow> Some (Inl f)
      | Inr m \<Rightarrow>
          (case rxp_search_job api m buf n s of
             None \<Rightarrow> None
           | Some (s3, pkt, rxp_resp) \<Rightarrow> Some (rxp_search_dispatch api m mf pv pkt rxp_resp s3)))"

subsection \<open>Module reset\<close>

definition rxp_init :: "'e process \<Rightarrow> 'e process" where
  "rxp_init s = s\<lparr>jobs_submitted := 0, match_limit := 0, patterns := 0, max_pattern_len := 0\<rparr>"

subsection \<open>Auxiliary notions for the statements\<close>

text \<open>The escaped text held by the pattern at an address, if there is one.\<close>

definition text_at :: "RxpPattern list \<Rightarrow> addr \<Rightarrow> string option" where
  "text_at store p = (case deref store p of Inl f \<Rightarrow> None | Inr obj \<Rightarrow> pat obj)"

text \<open>
  The Pattern that owns the rule identifier of a match entry, and the callback
  invocations that the specification asks for one entry: one for every context of the
  owner, in the order of the contexts, with the end offset \<open>start + length\<close>.
\<close>

definition owner :: "(int \<rightharpoonup> addr) \<Rightarrow> RxpPattern list \<Rightarrow> rxp_match_data \<Rightarrow> RxpPattern option" where
  "owner tbl store md =
     (case tbl (int (rule_id md)) of
        None \<Rightarrow> None
      | Some a \<Rightarrow> (case deref store a of Inl f \<Rightarrow> None | Inr obj \<Rightarrow> Some obj))"

definition entry_contexts :: "(int \<rightharpoonup> addr) \<Rightarrow> RxpPattern list \<Rightarrow> rxp_match_data \<Rightarrow> (int \<times> UserCtx) list" where
  "entry_contexts tbl store md =
     (case owner tbl store md of
        None \<Rightarrow> []
      | Some obj \<Rightarrow> map (\<lambda>c. (int (start_ptr md) + int (length' md), c)) (userctx obj))"

definition match_event :: "addr \<Rightarrow> int \<times> UserCtx \<Rightarrow> event" where
  "match_event pv tc = Match (user (snd tc)) (user_tree (snd tc)) (fst tc) pv (user_list (snd tc))"

definition match_effect :: "'e MpseMatch \<Rightarrow> addr \<Rightarrow> 'e \<Rightarrow> int \<times> UserCtx \<Rightarrow> 'e" where
  "match_effect mf pv e tc =
     snd (mf (user (snd tc)) (user_tree (snd tc)) (fst tc) pv (user_list (snd tc)) e)"

text \<open>
  The calls into the host agent that the specification asks of finalisation, for one
  context and for one Pattern: for a non-null handle the negate list if the Pattern is
  negated and the match tree otherwise, and then always the match tree keyed by null.
  \<open>null_tree_for p\<close> recognises the null-keyed builds on the slots of the Pattern
  at \<open>p\<close>; the shape of the store is what finalisation leaves alone.
\<close>

definition context_calls :: "addr \<Rightarrow> bool \<Rightarrow> addr \<Rightarrow> nat \<Rightarrow> addr \<Rightarrow> event list" where
  "context_calls sc neg p i u =
     (if u \<noteq> 0 then [if neg then NegateList u (p, i) else BuildTree sc u (p, i)] else [])
     @ [BuildTree sc 0 (p, i)]"

definition finalize_calls :: "addr \<Rightarrow> RxpPattern list \<Rightarrow> addr \<Rightarrow> event list" where
  "finalize_calls sc store p =
     (case deref store p of
        Inl f \<Rightarrow> []
      | Inr obj \<Rightarrow>
          concat (map (\<lambda>(i, u). context_calls sc (negate obj) p i u)
                    (enumerate 0 (map user (userctx obj)))))"

fun null_tree_for :: "addr \<Rightarrow> event \<Rightarrow> bool" where
  "null_tree_for p (BuildTree sc u slot) = (u = 0 \<and> fst slot = p)"
| "null_tree_for p ev = False"

definition shape :: "RxpPattern list \<Rightarrow> (bool \<times> addr list) list" where
  "shape store = map (\<lambda>obj. (negate obj, map user (userctx obj))) store"

text \<open>
  What one of these calls does: the agent receives the current content of the slot the
  call names (the tree slot for \<^verbatim>\<open>build_tree\<close>, the list slot for
  \<^verbatim>\<open>negate_list\<close>) and the slot then holds what the agent returned; the agent
  acts on the environment.
\<close>

fun agent_effect :: "'e MpseAgent \<Rightarrow> RxpPattern list \<times> 'e \<Rightarrow> event \<Rightarrow> RxpPattern list \<times> 'e" where
  "agent_effect a (store, e) (BuildTree sc u (p, i)) =
     (let obj = store ! (p - 1);
          c = userctx obj ! i;
          r = build_tree a sc u (user_tree c) e
      in (store[p - 1 := obj\<lparr>userctx := (userctx obj)[i := c\<lparr>user_tree := fst r\<rparr>]\<rparr>], snd r))"
| "agent_effect a (store, e) (NegateList u (p, i)) =
     (let obj = store ! (p - 1);
          c = userctx obj ! i;
          r = negate_list a u (user_list c) e
      in (store[p - 1 := obj\<lparr>userctx := (userctx obj)[i := c\<lparr>user_list := fst r\<rparr>]\<rparr>], snd r))"
| "agent_effect a (store, e) ev = (store, e)"

text \<open>
  A run of the process: constructor and \<^verbatim>\<open>add_pattern\<close> calls in program
  order, on any instances; it stops at the first fault.
\<close>

datatype 'e call = Ctor "'e MpseAgent" | Add addr "byte list" PatternDescriptor addr

fun run :: "'e call list \<Rightarrow> 'e process \<Rightarrow> fault + 'e process" where
  "run [] s = Inr s"
| "run (Ctor a # cs) s = run cs (snd (rxp_ctor a s))"
| "run (Add this bytes desc usr # cs) s =
     (case add_pattern this bytes desc usr s of
        Inl f \<Rightarrow> Inl f
      | Inr (r, s') \<Rightarrow> run cs s')"

text \<open>
  The rule identifiers assigned so far, in the order of assignment (every identifier
  is assigned to a new Pattern, and Patterns are stored in the order of their
  creation), and the identifiers that the counter \<^verbatim>\<open>patterns\<close> gives to the
  first \<open>n\<close> Patterns when it starts at zero.
\<close>

definition assigned_ids :: "'e process \<Rightarrow> 16 word list" where
  "assigned_ids s = map ruleid (pattern_store s)"

definition counter_ids :: "nat \<Rightarrow> 16 word list" where
  "counter_ids n = map (\<lambda>i. of_nat (Suc i)) [0..<n]"

definition ids_follow_counter :: "'e process \<Rightarrow> bool" where
  "ids_follow_counter s \<longleftrightarrow>
     patterns s = of_nat (length (pattern_store s)) \<and>
     assigned_ids s = counter_ids (length (pattern_store s))"

text \<open>
  Two invariants of runs: the keys of every rule-identifier table are identifiers
  that were assigned, and every pattern that an instance holds has text. The second
  needs that no call passes the empty byte sequence.
\<close>

definition tables_hold_assigned :: "'e process \<Rightarrow> bool" where
  "tables_hold_assigned s \<longleftrightarrow>
     (\<forall>m\<in>set (mpse_store s). \<forall>k\<in>dom (ruleidtbl m). k \<in> uint ` set (assigned_ids s))"

definition all_held_text :: "'e process \<Rightarrow> bool" where
  "all_held_text s \<longleftrightarrow>
     (\<forall>m\<in>set (mpse_store s). \<forall>p\<in>set (pats m). text_at (pattern_store s) p \<noteq> None)"

fun has_bytes :: "'e call \<Rightarrow> bool" where
  "has_bytes (Add this bytes desc usr) = (bytes \<noteq> [])"
| "has_bytes (Ctor a) = True"

subsection \<open>Concrete inputs\<close>

text \<open>
  A host agent that hands out fresh structures for empty slots, the pattern
  \<^verbatim>\<open>"GET"\<close>, and the process after one instance was constructed and
  \<^verbatim>\<open>"GET"\<close> was added to it for the rule with handle \<open>11\<close>.
\<close>

definition fresh_agent :: "nat MpseAgent" where
  "fresh_agent =
     \<lparr>build_tree = (\<lambda>sc u slot e. (if slot = 0 then Suc e else slot, Suc e)),
      negate_list = (\<lambda>u slot e. (if slot = 0 then Suc e else slot, Suc e))\<rparr>"

definition GET :: "byte list" where
  "GET = [71, 69, 84]"

definition plain :: PatternDescriptor where
  "plain = \<lparr>d_no_case = False, d_negated = False\<rparr>"

definition one_instance :: "nat RxpMpse" where
  "one_instance = \<lparr>agent = fresh_agent, ruleidtbl = [1 \<mapsto> 1], instance_id = 1, pats = [1]\<rparr>"

definition one_pattern :: "nat process" where
  "one_pattern =
     \<lparr>duplicates = 0, jobs_submitted = 0, match_limit = 0, patterns = 1,
      max_pattern_len = 3, instances = [1], portid = 0,
      mpse_store = [one_instance],
      pattern_store =
        [\<lparr>pat = Some ''GET'', ruleid = 1, no_case = False, negate = False,
          userctx = [\<lparr>user = 11, user_tree = 0, user_list = 0\<rparr>]\<rparr>],
      env = 0, trace = []\<rparr>"

text \<open>
  Two instances with one pattern each, and \<open>n\<close> instances with one pattern each.
\<close>

definition two_adds :: "nat call list" where
  "two_adds = [Ctor fresh_agent, Add 1 GET plain 11, Ctor fresh_agent, Add 2 GET plain 22]"

definition many_adds :: "nat \<Rightarrow> nat call list" where
  "many_adds n = concat (map (\<lambda>i. [Ctor fresh_agent, Add (Suc i) GET plain 11]) [0..<n])"

text \<open>
  A device that answers the third poll of every job with a given response, a callback
  that asks to stop after every match and one that never does, the process after \<^verbatim>\<open>"GET"\<close> was added a
  second time for the rule with handle \<open>22\<close>, and device responses about it.
\<close>

definition answering :: "rxp_response_data \<Rightarrow> nat rxp_api" where
  "answering resp =
     \<lparr>RXP_MAX_JOB_LENGTH = 16384,
      rxp_prepare_job = (\<lambda>port job_id buf n subset e. (1, e)),
      rxp_enqueue_job = (\<lambda>port job_buf e. e),
      rxp_dispatch_jobs = (\<lambda>port e. 2),
      rxp_get_responses = (\<lambda>port e. if e = 0 then ((1, 1), e) else ((0, 0), e - 1)),
      rxp_get_response_data = (\<lambda>pkt e. (0, resp)),
      rxp_free_buffer = (\<lambda>pkt e. e)\<rparr>"

definition stop_match :: "nat MpseMatch" where
  "stop_match u t to pv l e = (1, Suc e)"

definition go_match :: "nat MpseMatch" where
  "go_match u t to pv l e = (0, Suc e)"

definition two_contexts :: "nat process" where
  "two_contexts =
     \<lparr>duplicates = 1, jobs_submitted = 0, match_limit = 0, patterns = 1,
      max_pattern_len = 3, instances = [1], portid = 0,
      mpse_store = [one_instance],
      pattern_store =
        [\<lparr>pat = Some ''GET'', ruleid = 1, no_case = False, negate = False,
          userctx = [\<lparr>user = 11, user_tree = 0, user_list = 0\<rparr>,
                     \<lparr>user = 22, user_tree = 0, user_list = 0\<rparr>]\<rparr>],
      env = 0, trace = []\<rparr>"

definition GET_at_7 :: rxp_match_data where
  "GET_at_7 = \<lparr>rule_id = 1, start_ptr = 7, length' = 3\<rparr>"

definition one_match :: rxp_response_data where
  "one_match = \<lparr>match_count = 1, detected_match_count = 1, match_data = [GET_at_7]\<rparr>"

definition three_of_five :: rxp_response_data where
  "three_of_five =
     \<lparr>match_count = 3, detected_match_count = 5,
      match_data = [GET_at_7, GET_at_7\<lparr>start_ptr := 20\<rparr>, GET_at_7\<lparr>start_ptr := 30\<rparr>]\<rparr>"

definition none_of_five :: rxp_response_data where
  "none_of_five = \<lparr>match_count = 0, detected_match_count = 5, match_data = []\<rparr>"

definition unknown_rule :: rxp_response_data where
  "unknown_rule =
     \<lparr>match_count = 1, detected_match_count = 1, match_data = [GET_at_7\<lparr>rule_id := 9\<rparr>]\<rparr>"



text \<open>
  The process after the negated pattern \<^verbatim>\<open>"POST"\<close> was added for the rule with
  handle \<open>33\<close>.
\<close>

definition POST :: "byte list" where
  "POST = [80, 79, 83, 84]"

definition negated :: PatternDescriptor where
  "negated = \<lparr>d_no_case = False, d_negated = True\<rparr>"

definition three_rules :: "nat process" where
  "three_rules =
     \<lparr>duplicates = 1, jobs_submitted = 0, match_limit = 0, patterns = 2,
      max_pattern_len = 4, instances = [1], portid = 0,
      mpse_store =
        [\<lparr>agent = fresh_agent, ruleidtbl = [1 \<mapsto> 1, 2 \<mapsto> 2], instance_id = 1, pats = [1, 2]\<rparr>],
      pattern_store =
        [\<lparr>pat = Some ''GET'', ruleid = 1, no_case = False, negate = False,
          userctx = [\<lparr>user = 11, user_tree = 0, user_list = 0\<rparr>,
                     \<lparr>user = 22, user_tree = 0, user_list = 0\<rparr>]\<rparr>,
         \<lparr>pat = Some ''POST'', ruleid = 2, no_case = False, negate = True,
          userctx = [\<lparr>user = 33, user_tree = 0, user_list = 0\<rparr>]\<rparr>],
      env = 0, trace = []\<rparr>"
subsection \<open>Properties of the escaper\<close>

lemma conv_x_byte:
  assumes "n < 256"
  shows "zero_pad 2 (conv_x n) = [hex_digit (n div 16), hex_digit (n mod 16)]"
proof (cases "n < 16")
  case True
  then show ?thesis by (simp add: zero_pad_def hex_digit_def)
next
  case False
  with assms have "n div 16 < 16" by simp
  with False show ?thesis
    by (subst conv_x.simps) (simp add: zero_pad_def)
qed

lemma sprintf_hexbyte_eq:
  "sprintf_hexbyte b = [CHR 0x5C, CHR ''x'', hex_digit (unat b div 16), hex_digit (unat b mod 16)]"
proof -
  have "unat b < 256" using unsigned_less [of b, where ?'a = nat] by simp
  then show ?thesis by (simp add: sprintf_hexbyte_def conv_x_byte del: conv_x.simps)
qed

lemma mem_ascii_iff:
  "ascii_letter_or_digit b \<longleftrightarrow> unat b \<in> of_char ` set ''0123456789ABCDEFGHIJKLMNOPQRSTUVWXYZabcdefghijklmnopqrstuvwxyz''"
proof -
  let ?S = "of_char ` set ''0123456789ABCDEFGHIJKLMNOPQRSTUVWXYZabcdefghijklmnopqrstuvwxyz'' :: nat set"
  have bound: "\<forall>n\<in>?S. n < 256" by simp
  have "b \<in> of_nat ` ?S \<longleftrightarrow> unat b \<in> ?S"
  proof
    assume "b \<in> of_nat ` ?S"
    then obtain n where n: "n \<in> ?S" "b = of_nat n" by blast
    with bound have "n < 256" by blast
    then have "unat (of_nat n :: byte) = n" by (simp add: unat_of_nat)
    with n show "unat b \<in> ?S" by simp
  next
    assume "unat b \<in> ?S"
    then have "of_nat (unat b) \<in> (of_nat ` ?S :: byte set)" by (rule imageI)
    then show "b \<in> of_nat ` ?S" by simp
  qed
  then show ?thesis by (simp only: ascii_letter_or_digit_def)
qed

lemma isalnum_iff: "isalnum b \<longleftrightarrow> ascii_letter_or_digit b"
  unfolding mem_ascii_iff isalnum_def
  by (simp) arith

lemma escape_loop_spec: "escape_loop bs acc = acc @ spec_escape bs"
proof (induction bs arbitrary: acc)
  case Nil
  show ?case by (simp add: spec_escape_def)
next
  case (Cons b bs)
  have "spec_escape (b # bs) = spec_escape_byte b @ spec_escape bs"
    by (simp add: spec_escape_def)
  then show ?case
    by (simp add: Cons.IH spec_escape_byte_def isalnum_iff sprintf_hexbyte_eq)
qed

subsection \<open>Properties of the registry\<close>

lemma text_at_SomeD:
  "text_at store p = Some t \<Longrightarrow>
     p \<noteq> 0 \<and> p \<le> length store \<and> deref store p = Inr (store ! (p - 1)) \<and> pat (store ! (p - 1)) = Some t"
  by (auto simp: text_at_def deref_def split: if_splits)

lemma find_pattern_find:
  assumes "\<forall>p\<in>set ps. text_at store p \<noteq> None"
  shows "find_pattern store (Some t) ps =
           Inr (case find (\<lambda>p. text_at store p = Some t) ps of None \<Rightarrow> 0 | Some p \<Rightarrow> p)"
  using assms
proof (induction ps)
  case Nil
  show ?case by simp
next
  case (Cons p ps)
  from Cons.prems obtain u where u: "text_at store p = Some u" by auto
  note d = text_at_SomeD [OF u]
  show ?case
  proof (cases "u = t")
    case True
    with u d show ?thesis by simp
  next
    case False
    with u d Cons show ?thesis by simp
  qed
qed

lemma find_Some_text:
  "find (\<lambda>p. text_at store p = Some t) ps = Some p \<Longrightarrow> p \<in> set ps \<and> text_at store p = Some t"
  by (auto simp: find_Some_iff)

lemma add_pattern_duplicate:
  assumes m: "deref (mpse_store s) this = Inr m"
    and wf: "\<forall>p\<in>set (pats m). text_at (pattern_store s) p \<noteq> None"
    and esc: "rxp_escape_pattern bytes = Some t"
    and f: "find (\<lambda>p. text_at (pattern_store s) p = Some t) (pats m) = Some p"
  shows "add_pattern this bytes desc usr s =
           Inr (0, s\<lparr>duplicates := duplicates s + 1,
                     pattern_store := (pattern_store s)
                       [p - 1 := (pattern_store s ! (p - 1))
                          \<lparr>userctx := userctx (pattern_store s ! (p - 1)) @ [UserCtx_ctor usr]\<rparr>]\<rparr>)"
proof -
  from find_Some_text [OF f] have "text_at (pattern_store s) p = Some t" by simp
  note d = text_at_SomeD [OF this]
  have fp: "find_pattern (pattern_store s) (Some t) (pats m) = Inr p"
    by (simp add: find_pattern_find [OF wf] f)
  from d have p0: "p \<noteq> 0" and dp: "deref (pattern_store s) p = Inr (pattern_store s ! (p - 1))"
    by simp_all
  show ?thesis
    using p0 by (simp add: add_pattern_def Let_def esc m fp dp)
qed

lemma add_pattern_new:
  assumes m: "deref (mpse_store s) this = Inr m"
    and wf: "\<forall>p\<in>set (pats m). text_at (pattern_store s) p \<noteq> None"
    and esc: "rxp_escape_pattern bytes = Some t"
    and f: "find (\<lambda>p. text_at (pattern_store s) p = Some t) (pats m) = None"
  shows "add_pattern this bytes desc usr s =
           Inr (0, s\<lparr>patterns := patterns s + 1,
                     max_pattern_len :=
                       (if of_nat (length bytes) > max_pattern_len s then of_nat (length bytes)
                        else max_pattern_len s),
                     mpse_store := (mpse_store s)
                       [this - 1 := m\<lparr>ruleidtbl := (ruleidtbl m)
                            (uint (ucast (patterns s + 1) :: 16 word) \<mapsto> length (pattern_store s) + 1),
                          pats := pats m @ [length (pattern_store s) + 1]\<rparr>],
                     pattern_store := pattern_store s @
                       [(RxpPattern_ctor (Some t) desc usr)\<lparr>ruleid := ucast (patterns s + 1)\<rparr>]\<rparr>)"
proof -
  have fp: "find_pattern (pattern_store s) (Some t) (pats m) = Inr 0"
    by (simp add: find_pattern_find [OF wf] f)
  show ?thesis
    by (simp add: add_pattern_def Let_def esc m fp RxpPattern_ctor_def)
qed

lemma deref_update_same:
  "deref store a = Inr x \<Longrightarrow> deref (store[a - 1 := y]) a = Inr y"
  by (auto simp: deref_def split: if_splits)

lemma deref_update_other:
  "a \<noteq> b \<Longrightarrow> b \<noteq> 0 \<Longrightarrow> deref (store[b - 1 := y]) a = deref store a"
  by (auto simp: deref_def nth_list_update split: if_splits)

lemma escape_GET: "rxp_escape_pattern GET = Some ''GET''"
proof -
  have e: "spec_escape [71, 69, 84] = ''GET''" by code_simp
  show ?thesis by (simp add: GET_def rxp_escape_pattern_def escape_loop_spec e)
qed

lemma length_GET: "length GET = 3"
  by (simp add: GET_def)

lemma one_pattern_reached:
  "add_pattern 1 GET plain 11 (snd (rxp_ctor fresh_agent (process_start 0))) = Inr (0, one_pattern)"
  by (simp add: add_pattern_def escape_GET rxp_ctor_def process_start_def deref_def Let_def
      RxpPattern_ctor_def UserCtx_ctor_def plain_def one_pattern_def one_instance_def length_GET)

subsection \<open>Rule identifiers follow the counter\<close>

lemma narrow_counter: "(ucast (of_nat n :: 64 word) :: 16 word) = of_nat n"
  by (rule bit_word_eqI) (simp add: bit_simps)

lemma deref_InrD: "deref store a = Inr x \<Longrightarrow> a \<noteq> 0 \<and> a \<le> length store \<and> x = store ! (a - 1)"
  by (auto simp: deref_def split: if_splits)

lemma add_pattern_ids:
  assumes "add_pattern this bytes desc usr s = Inr (r, s')"
  shows "(assigned_ids s' = assigned_ids s \<and> patterns s' = patterns s \<and>
            length (pattern_store s') = length (pattern_store s)) \<or>
         (assigned_ids s' = assigned_ids s @ [ucast (patterns s + 1)] \<and>
            patterns s' = patterns s + 1 \<and>
            length (pattern_store s') = Suc (length (pattern_store s)))"
proof -
  from assms obtain m where m: "deref (mpse_store s) this = Inr m"
    by (auto simp: add_pattern_def Let_def split: sum.splits)
  from assms m obtain q where q: "find_pattern (pattern_store s) (rxp_escape_pattern bytes) (pats m) = Inr q"
    by (auto simp: add_pattern_def Let_def split: sum.splits)
  show ?thesis
  proof (cases "q = 0")
    case True
    with assms m q show ?thesis
      by (auto simp: add_pattern_def Let_def assigned_ids_def RxpPattern_ctor_def)
  next
    case False
    with assms m q obtain obj where obj: "deref (pattern_store s) q = Inr obj"
      by (auto simp: add_pattern_def Let_def split: sum.splits)
    note d = deref_InrD [OF obj]
    from d have lt: "q - 1 < length (pattern_store s)" by (cases q) auto
    from d have "map ruleid ((pattern_store s)[q - 1 := obj\<lparr>userctx := userctx obj @ [UserCtx_ctor usr]\<rparr>])
        = (map ruleid (pattern_store s))[q - 1 := map ruleid (pattern_store s) ! (q - 1)]"
      using lt by (simp add: map_update)
    then have "map ruleid ((pattern_store s)[q - 1 := obj\<lparr>userctx := userctx obj @ [UserCtx_ctor usr]\<rparr>])
        = map ruleid (pattern_store s)"
      by (simp only: list_update_id)
    with assms m q False obj show ?thesis
      by (auto simp: add_pattern_def Let_def assigned_ids_def)
  qed
qed

lemma counter_ids_Suc: "counter_ids (Suc n) = counter_ids n @ [of_nat (Suc n)]"
  by (simp add: counter_ids_def)

lemma narrow_counter_Suc: "(ucast (of_nat n + 1 :: 64 word) :: 16 word) = 1 + of_nat n"
  using narrow_counter [of "Suc n"] by (simp add: add.commute)

lemma add_pattern_follow:
  assumes "add_pattern this bytes desc usr s = Inr (r, s')" and "ids_follow_counter s"
  shows "ids_follow_counter s'"
  using add_pattern_ids [OF assms(1)] assms(2)
  by (auto simp: ids_follow_counter_def counter_ids_Suc narrow_counter_Suc)

lemma rxp_ctor_follow: "ids_follow_counter s \<Longrightarrow> ids_follow_counter (snd (rxp_ctor a s))"
  by (simp add: ids_follow_counter_def rxp_ctor_def Let_def assigned_ids_def)

lemma run_follow:
  "run cs s = Inr s' \<Longrightarrow> ids_follow_counter s \<Longrightarrow> ids_follow_counter s'"
proof (induction cs s rule: run.induct)
  case (1 s)
  then show ?case by simp
next
  case (2 a cs s)
  then show ?case by (simp add: rxp_ctor_follow)
next
  case (3 this bytes desc usr cs s)
  from "3.prems"(1) obtain r s1 where a: "add_pattern this bytes desc usr s = Inr (r, s1)"
    and rest: "run cs s1 = Inr s'"
    by (auto split: sum.splits)
  from add_pattern_follow [OF a "3.prems"(2)] have "ids_follow_counter s1" .
  with "3.IH" a rest show ?case by simp
qed

lemma process_start_follow: "ids_follow_counter (process_start e)"
  by (simp add: ids_follow_counter_def process_start_def assigned_ids_def counter_ids_def)

lemma counter_ids_unat:
  assumes "n \<le> 65535"
  shows "map unat (counter_ids n) = [1..<Suc n]"
proof -
  have "\<And>i. i < n \<Longrightarrow> unat (of_nat (Suc i) :: 16 word) = Suc i"
  proof -
    fix i assume "i < n"
    with assms have "Suc i < 65536" by simp
    then show "unat (of_nat (Suc i) :: 16 word) = Suc i"
      by (simp add: unat_of_nat del: of_nat_Suc)
  qed
  then have "map unat (counter_ids n) = map Suc [0..<n]"
    by (simp add: counter_ids_def del: of_nat_Suc)
  also have "\<dots> = [1..<Suc n]"
    by (simp add: map_Suc_upt)
  finally show ?thesis .
qed

lemma run_append:
  "run (xs @ ys) s = (case run xs s of Inl f \<Rightarrow> Inl f | Inr s' \<Rightarrow> run ys s')"
  by (induction xs s rule: run.induct) (auto split: sum.splits)

lemma ctor_add_fresh:
  assumes "length (mpse_store s) = k"
  shows "\<exists>s'. run [Ctor a, Add (Suc k) GET plain usr] s = Inr s' \<and>
           length (mpse_store s') = Suc k \<and>
           length (pattern_store s') = Suc (length (pattern_store s))"
  using assms
  by (simp add: rxp_ctor_def Let_def add_pattern_def deref_def escape_GET nth_append)

lemma run_many_adds:
  "length (mpse_store s) = 0 \<Longrightarrow>
     \<exists>s'. run (many_adds n) s = Inr s' \<and> length (mpse_store s') = n \<and>
          length (pattern_store s') = length (pattern_store s) + n"
proof (induction n)
  case 0
  then show ?case by (simp add: many_adds_def)
next
  case (Suc n)
  then obtain s1 where s1: "run (many_adds n) s = Inr s1" "length (mpse_store s1) = n"
      "length (pattern_store s1) = length (pattern_store s) + n"
    by blast
  from ctor_add_fresh [OF s1(2), of fresh_agent 11]
  obtain s2 where s2: "run [Ctor fresh_agent, Add (Suc n) GET plain 11] s1 = Inr s2"
      "length (mpse_store s2) = Suc n" "length (pattern_store s2) = Suc (length (pattern_store s1))"
    by blast
  have "many_adds (Suc n) = many_adds n @ [Ctor fresh_agent, Add (Suc n) GET plain 11]"
    by (simp add: many_adds_def)
  with s1 s2 show ?case
    by (simp add: run_append)
qed

lemma counter_ids_nth: "i < n \<Longrightarrow> counter_ids n ! i = of_nat (Suc i)"
  by (simp add: counter_ids_def del: of_nat_Suc)

lemma length_counter_ids: "length (counter_ids n) = n"
  by (simp add: counter_ids_def)

subsection \<open>Invariants of runs\<close>

lemma add_pattern_cases:
  assumes "add_pattern this bytes desc usr s = Inr (r, s')"
  obtains (dup) m q obj where "deref (mpse_store s) this = Inr m"
      "deref (pattern_store s) q = Inr obj"
      "s' = s\<lparr>duplicates := duplicates s + 1,
               pattern_store := (pattern_store s)
                 [q - 1 := obj\<lparr>userctx := userctx obj @ [UserCtx_ctor usr]\<rparr>]\<rparr>"
  | (new) m where "deref (mpse_store s) this = Inr m"
      "s' = s\<lparr>patterns := patterns s + 1,
               max_pattern_len :=
                 (if of_nat (length bytes) > max_pattern_len s then of_nat (length bytes)
                  else max_pattern_len s),
               mpse_store := (mpse_store s)
                 [this - 1 := m\<lparr>ruleidtbl := (ruleidtbl m)
                      (uint (ucast (patterns s + 1) :: 16 word) \<mapsto> length (pattern_store s) + 1),
                    pats := pats m @ [length (pattern_store s) + 1]\<rparr>],
               pattern_store := pattern_store s @
                 [(RxpPattern_ctor (rxp_escape_pattern bytes) desc usr)\<lparr>ruleid := ucast (patterns s + 1)\<rparr>]\<rparr>"
proof -
  from assms obtain m where m: "deref (mpse_store s) this = Inr m"
    by (auto simp: add_pattern_def Let_def split: sum.splits)
  from assms m obtain q where q: "find_pattern (pattern_store s) (rxp_escape_pattern bytes) (pats m) = Inr q"
    by (auto simp: add_pattern_def Let_def split: sum.splits)
  show thesis
  proof (cases "q = 0")
    case True
    with assms m q have "s' = s\<lparr>patterns := patterns s + 1,
               max_pattern_len :=
                 (if of_nat (length bytes) > max_pattern_len s then of_nat (length bytes)
                  else max_pattern_len s),
               mpse_store := (mpse_store s)
                 [this - 1 := m\<lparr>ruleidtbl := (ruleidtbl m)
                      (uint (ucast (patterns s + 1) :: 16 word) \<mapsto> length (pattern_store s) + 1),
                    pats := pats m @ [length (pattern_store s) + 1]\<rparr>],
               pattern_store := pattern_store s @
                 [(RxpPattern_ctor (rxp_escape_pattern bytes) desc usr)\<lparr>ruleid := ucast (patterns s + 1)\<rparr>]\<rparr>"
      by (auto simp: add_pattern_def Let_def RxpPattern_ctor_def)
    with m show thesis by (rule new)
  next
    case False
    with assms m q obtain obj where obj: "deref (pattern_store s) q = Inr obj"
      by (auto simp: add_pattern_def Let_def split: sum.splits)
    with assms m q False have "s' = s\<lparr>duplicates := duplicates s + 1,
               pattern_store := (pattern_store s)
                 [q - 1 := obj\<lparr>userctx := userctx obj @ [UserCtx_ctor usr]\<rparr>]\<rparr>"
      by (auto simp: add_pattern_def Let_def)
    with m obj show thesis by (rule dup)
  qed
qed

lemma set_update_cases:
  "x \<in> set (xs[i := y]) \<Longrightarrow> x = y \<or> x \<in> set xs"
  using set_update_subset_insert [of xs i y] by auto

lemma add_pattern_tables:
  assumes a: "add_pattern this bytes desc usr s = Inr (r, s')" and inv: "tables_hold_assigned s"
  shows "tables_hold_assigned s'"
  using a
proof (cases rule: add_pattern_cases)
  case (dup m q obj)
  from dup(2) have k: "q - 1 < length (pattern_store s)" and o: "obj = pattern_store s ! (q - 1)"
    by (auto simp: deref_def split: if_splits)
  have "map ruleid ((pattern_store s)[q - 1 := obj\<lparr>userctx := userctx obj @ [UserCtx_ctor usr]\<rparr>])
        = (map ruleid (pattern_store s))[q - 1 := map ruleid (pattern_store s) ! (q - 1)]"
    using k o by (simp add: map_update)
  then have "assigned_ids s' = assigned_ids s"
    unfolding dup(3) assigned_ids_def by (simp only: list_update_id) simp
  moreover have "mpse_store s' = mpse_store s" by (simp add: dup(3))
  ultimately show ?thesis using inv by (simp add: tables_hold_assigned_def)
next
  case (new m)
  let ?id = "ucast (patterns s + 1) :: 16 word"
  let ?m' = "m\<lparr>ruleidtbl := (ruleidtbl m)(uint ?id \<mapsto> length (pattern_store s) + 1),
               pats := pats m @ [length (pattern_store s) + 1]\<rparr>"
  have ids: "set (assigned_ids s') = insert ?id (set (assigned_ids s))"
    by (simp add: new(2) assigned_ids_def RxpPattern_ctor_def)
  have st: "mpse_store s' = (mpse_store s)[this - 1 := ?m']" by (simp add: new(2))
  from new(1) have mm: "m \<in> set (mpse_store s)"
    by (auto simp: deref_def split: if_splits)
  show ?thesis
    unfolding tables_hold_assigned_def
  proof (intro ballI)
    fix x k
    assume x: "x \<in> set (mpse_store s')" and k: "k \<in> dom (ruleidtbl x)"
    from x st have "x = ?m' \<or> x \<in> set (mpse_store s)" by (auto dest: set_update_cases)
    then show "k \<in> uint ` set (assigned_ids s')"
    proof
      assume "x = ?m'"
      with k have "k = uint ?id \<or> k \<in> dom (ruleidtbl m)" by (auto split: if_splits)
      with inv mm ids show ?thesis by (auto simp: tables_hold_assigned_def)
    next
      assume "x \<in> set (mpse_store s)"
      with inv k ids show ?thesis by (auto simp: tables_hold_assigned_def)
    qed
  qed
qed

lemma rxp_ctor_tables: "tables_hold_assigned s \<Longrightarrow> tables_hold_assigned (snd (rxp_ctor a s))"
  by (auto simp: tables_hold_assigned_def rxp_ctor_def Let_def assigned_ids_def)

lemma run_tables:
  "run cs s = Inr s' \<Longrightarrow> tables_hold_assigned s \<Longrightarrow> tables_hold_assigned s'"
proof (induction cs s rule: run.induct)
  case (1 s)
  then show ?case by simp
next
  case (2 a cs s)
  then show ?case by (simp add: rxp_ctor_tables)
next
  case (3 this bytes desc usr cs s)
  from "3.prems"(1) obtain r s1 where a: "add_pattern this bytes desc usr s = Inr (r, s1)"
    and rest: "run cs s1 = Inr s'"
    by (auto split: sum.splits)
  from add_pattern_tables [OF a "3.prems"(2)] have "tables_hold_assigned s1" .
  with "3.IH" a rest show ?case by simp
qed

lemma unassigned_not_in_table:
  assumes "run cs (process_start e) = Inr s" and "deref (mpse_store s) this = Inr m"
    and "k \<notin> uint ` set (assigned_ids s)"
  shows "ruleidtbl m k = None"
proof -
  have "tables_hold_assigned (process_start e)"
    by (simp add: tables_hold_assigned_def process_start_def)
  from run_tables [OF assms(1) this] have inv: "tables_hold_assigned s" .
  from assms(2) have "m \<in> set (mpse_store s)"
    by (auto simp: deref_def split: if_splits)
  with inv assms(3) show ?thesis
    by (auto simp: tables_hold_assigned_def)
qed

lemma text_at_update:
  assumes "deref store q = Inr obj"
  shows "text_at (store[q - 1 := obj\<lparr>userctx := cs\<rparr>]) p = text_at store p"
proof -
  from assms have k: "q - 1 < length store" and o: "obj = store ! (q - 1)" and q: "q \<noteq> 0"
    by (auto simp: deref_def split: if_splits)
  show ?thesis
  proof (cases "p = q")
    case True
    with k o q show ?thesis by (simp add: text_at_def deref_def)
  next
    case False
    with q have "p - 1 \<noteq> q - 1 \<or> p = 0" by (cases p; cases q) auto
    then show ?thesis by (auto simp: text_at_def deref_def)
  qed
qed

lemma text_at_append:
  "text_at store p \<noteq> None \<Longrightarrow> text_at (store @ [obj]) p = text_at store p"
  by (auto simp: text_at_def deref_def nth_append split: if_splits)

lemma text_at_new: "text_at (store @ [obj]) (length store + 1) = pat obj"
  by (simp add: text_at_def deref_def)

lemma add_pattern_held_text:
  assumes a: "add_pattern this bytes desc usr s = Inr (r, s')" and inv: "all_held_text s"
    and ne: "bytes \<noteq> []"
  shows "all_held_text s'"
  using a
proof (cases rule: add_pattern_cases)
  case (dup m q obj)
  have "text_at (pattern_store s') p = text_at (pattern_store s) p" for p
    unfolding dup(3) using text_at_update [OF dup(2)] by simp
  moreover have "mpse_store s' = mpse_store s" by (simp add: dup(3))
  ultimately show ?thesis using inv by (simp add: all_held_text_def)
next
  case (new m)
  let ?obj = "(RxpPattern_ctor (rxp_escape_pattern bytes) desc usr)\<lparr>ruleid := ucast (patterns s + 1)\<rparr>"
  let ?m' = "m\<lparr>ruleidtbl := (ruleidtbl m)
                 (uint (ucast (patterns s + 1) :: 16 word) \<mapsto> length (pattern_store s) + 1),
               pats := pats m @ [length (pattern_store s) + 1]\<rparr>"
  have store: "pattern_store s' = pattern_store s @ [?obj]" by (simp add: new(2))
  have st: "mpse_store s' = (mpse_store s)[this - 1 := ?m']" by (simp add: new(2))
  from ne have fresh: "text_at (pattern_store s') (length (pattern_store s) + 1) \<noteq> None"
    unfolding store text_at_new by (simp add: RxpPattern_ctor_def rxp_escape_pattern_def)
  from new(1) have mm: "m \<in> set (mpse_store s)"
    by (auto simp: deref_def split: if_splits)
  have old: "text_at (pattern_store s') p \<noteq> None"
    if "x \<in> set (mpse_store s)" "p \<in> set (pats x)" for x p
  proof -
    from inv that have "text_at (pattern_store s) p \<noteq> None" by (simp add: all_held_text_def)
    from text_at_append [OF this] this show ?thesis by (simp add: store)
  qed
  show ?thesis
    unfolding all_held_text_def
  proof (intro ballI)
    fix x p
    assume x: "x \<in> set (mpse_store s')" and p: "p \<in> set (pats x)"
    from x st have "x = ?m' \<or> x \<in> set (mpse_store s)" by (auto dest: set_update_cases)
    then show "text_at (pattern_store s') p \<noteq> None"
    proof
      assume "x = ?m'"
      with p have "p = length (pattern_store s) + 1 \<or> p \<in> set (pats m)" by auto
      with fresh old [OF mm] show ?thesis by blast
    next
      assume "x \<in> set (mpse_store s)"
      from old [OF this p] show ?thesis .
    qed
  qed
qed

lemma rxp_ctor_held_text: "all_held_text s \<Longrightarrow> all_held_text (snd (rxp_ctor a s))"
  by (auto simp: all_held_text_def rxp_ctor_def Let_def)

lemma run_held_text:
  "run cs s = Inr s' \<Longrightarrow> all_held_text s \<Longrightarrow> \<forall>c\<in>set cs. has_bytes c \<Longrightarrow> all_held_text s'"
proof (induction cs s rule: run.induct)
  case (1 s)
  then show ?case by simp
next
  case (2 a cs s)
  then show ?case by (simp add: rxp_ctor_held_text)
next
  case (3 this bytes desc usr cs s)
  from "3.prems"(1) obtain r s1 where a: "add_pattern this bytes desc usr s = Inr (r, s1)"
    and rest: "run cs s1 = Inr s'"
    by (auto split: sum.splits)
  from "3.prems"(3) have ne: "bytes \<noteq> []" and more: "\<forall>c\<in>set cs. has_bytes c" by simp_all
  from add_pattern_held_text [OF a "3.prems"(2) ne] have "all_held_text s1" .
  with "3.IH" a rest more show ?case by simp
qed

lemma process_start_held_text: "all_held_text (process_start e)"
  by (simp add: all_held_text_def process_start_def)

subsection \<open>Properties of the search\<close>

lemma call_matches_eq:
  "call_matches mf to pv cs e tr =
     (foldl (match_effect mf pv) e (map (Pair to) cs),
      tr @ map (match_event pv) (map (Pair to) cs))"
  by (induction cs arbitrary: e tr)
     (simp_all add: match_effect_def match_event_def split: prod.splits)

lemma owner_SomeD:
  "owner tbl store md = Some obj \<Longrightarrow>
     \<exists>a. tbl (int (rule_id md)) = Some a \<and> deref store a = Inr obj"
  by (auto simp: owner_def split: option.splits sum.splits)

lemma dispatch_matches_resolved:
  assumes "\<forall>md\<in>set mds. owner tbl store md \<noteq> None"
  shows "dispatch_matches tbl store mf pv mds e tr =
           Inr (foldl (match_effect mf pv) e (concat (map (entry_contexts tbl store) mds)),
                tr @ map (match_event pv) (concat (map (entry_contexts tbl store) mds)))"
  using assms
proof (induction mds arbitrary: e tr)
  case Nil
  show ?case by simp
next
  case (Cons md mds)
  from Cons.prems obtain obj where o: "owner tbl store md = Some obj" by auto
  from owner_SomeD [OF o] obtain a where a: "tbl (int (rule_id md)) = Some a" "deref store a = Inr obj"
    by blast
  have ec: "entry_contexts tbl store md = map (Pair (int (start_ptr md + length' md))) (userctx obj)"
    by (simp add: entry_contexts_def o)
  from Cons.prems have rest: "\<forall>md\<in>set mds. owner tbl store md \<noteq> None" by simp
  show ?case
    by (simp add: a call_matches_eq Cons.IH [OF rest] ec Let_def)
qed

lemma dispatch_matches_unresolved:
  assumes "\<forall>x\<in>set pre. owner tbl store x \<noteq> None" and "tbl (int (rule_id md)) = None"
  shows "dispatch_matches tbl store mf pv (pre @ md # post) e tr = Inl NullDeref"
  using assms(1)
proof (induction pre arbitrary: e tr)
  case Nil
  show ?case by (simp add: assms(2) deref_def)
next
  case (Cons x pre)
  from Cons.prems obtain obj where o: "owner tbl store x = Some obj" by auto
  from owner_SomeD [OF o] obtain a where a: "tbl (int (rule_id x)) = Some a" "deref store a = Inr obj"
    by blast
  from Cons.prems have rest: "\<forall>x\<in>set pre. owner tbl store x \<noteq> None" by simp
  show ?case
    by (simp add: a call_matches_eq Cons.IH [OF rest] Let_def)
qed

lemma match_effect_cong:
  assumes "\<And>u t to pv l e. snd (mf' u t to pv l e) = snd (mf u t to pv l e)"
  shows "match_effect mf' = match_effect mf"
  by (intro ext) (simp add: match_effect_def assms)

lemma dispatch_matches_mf:
  assumes "\<And>u t to pv l e. snd (mf' u t to pv l e) = snd (mf u t to pv l e)"
  shows "dispatch_matches tbl store mf' pv mds e tr = dispatch_matches tbl store mf pv mds e tr"
proof (induction mds arbitrary: e tr)
  case Nil
  show ?case by simp
next
  case (Cons md mds)
  show ?case
    by (simp add: call_matches_eq match_effect_cong [of mf' mf, OF assms] Cons.IH Let_def
        split: sum.splits)
qed


lemma rxp_search_job_frame:
  assumes "rxp_search_job api m buf n s = Some (s3, pkt, resp)"
  shows "\<exists>e4 ret. s3 = s\<lparr>jobs_submitted := jobs_submitted s + 1, env := e4,
             trace := trace s
               @ (if RXP_MAX_JOB_LENGTH api < n then [LogTruncating n (RXP_MAX_JOB_LENGTH api)] else [])
               @ [PrepareJob (jobs_submitted s + 1)
                    (if RXP_MAX_JOB_LENGTH api < n then RXP_MAX_JOB_LENGTH api else n) (instance_id m)]
               @ (if ret \<noteq> 0 then [LogDecodeError ret] else [])\<rparr>"
proof -
  let ?M = "RXP_MAX_JOB_LENGTH api"
  let ?n1 = "if ?M < n then ?M else n"
  obtain job_buf e1 where pj:
    "rxp_prepare_job api (portid s) (jobs_submitted s + 1) buf ?n1 (instance_id m) (env s) = (job_buf, e1)"
    by fastforce
  from assms pj obtain e4 where poll:
    "poll_responses api (portid s)
       (rxp_dispatch_jobs api (portid s) (rxp_enqueue_job api (portid s) job_buf e1)) = Some (pkt, e4)"
    by (auto simp: rxp_search_job_def Let_def split: option.splits prod.splits if_splits)
  obtain ret resp' where d: "rxp_get_response_data api pkt e4 = (ret, resp')"
    by fastforce
  from assms pj poll d
  have "s3 = s\<lparr>jobs_submitted := jobs_submitted s + 1, env := e4,
             trace := trace s
               @ (if ?M < n then [LogTruncating n ?M] else [])
               @ [PrepareJob (jobs_submitted s + 1) ?n1 (instance_id m)]
               @ (if ret \<noteq> 0 then [LogDecodeError ret] else [])\<rparr>"
    by (auto simp: rxp_search_job_def Let_def split: if_splits)
  then show ?thesis by blast
qed

lemma two_contexts_reached: "add_pattern 1 GET plain 22 one_pattern = Inr (0, two_contexts)"
  by (simp add: add_pattern_def escape_GET deref_def Let_def UserCtx_ctor_def one_pattern_def
      one_instance_def two_contexts_def)

lemma poll_answering: "poll_responses (answering resp) port e = Some (1, 0)"
proof (induction e)
  case 0
  show ?case by (subst poll_responses.simps) (simp add: answering_def)
next
  case (Suc e)
  have "poll_responses (answering resp) port (Suc e) = poll_responses (answering resp) port e"
    by (subst poll_responses.simps) (simp add: answering_def)
  with Suc show ?case by simp
qed

lemma job_answering:
  "rxp_search_job (answering resp) m buf n s =
     Some (s\<lparr>jobs_submitted := jobs_submitted s + 1, env := 0,
              trace := trace s
                @ (if 16384 < n then [LogTruncating n 16384] else [])
                @ [PrepareJob (jobs_submitted s + 1) (if 16384 < n then 16384 else n) (instance_id m)]\<rparr>,
           1, resp)"
  by (simp add: rxp_search_job_def Let_def poll_answering) (simp add: answering_def)

lemma rxp_search_parts:
  assumes "deref (mpse_store s) this = Inr m"
    and "rxp_search_job api m buf n s = Some (s3, pkt, resp)"
  shows "rxp_search api this buf n mf pv s = Some (rxp_search_dispatch api m mf pv pkt resp s3)"
  using assms by (simp add: rxp_search_def)

lemma rxp_search_dispatch_resolved:
  assumes inb: "match_count resp \<le> length (match_data resp)"
    and res: "\<forall>md\<in>set (take (match_count resp) (match_data resp)).
                owner (ruleidtbl m) (pattern_store s3) md \<noteq> None"
  shows "rxp_search_dispatch api m mf pv pkt resp s3 =
           Inr (0, s3\<lparr>match_limit :=
                         (if match_count resp \<noteq> 0 \<and> match_count resp < detected_match_count resp
                          then match_limit s3 + 1 else match_limit s3),
                       env := rxp_free_buffer api pkt
                         (foldl (match_effect mf pv) (env s3)
                            (concat (map (entry_contexts (ruleidtbl m) (pattern_store s3))
                               (take (match_count resp) (match_data resp))))),
                       trace := trace s3
                         @ (if match_count resp \<noteq> 0 \<and> match_count resp < detected_match_count resp
                            then [LogMatchLimit (detected_match_count resp) (match_count resp)] else [])
                         @ map (match_event pv)
                             (concat (map (entry_contexts (ruleidtbl m) (pattern_store s3))
                                (take (match_count resp) (match_data resp))))\<rparr>)"
proof (cases "match_count resp = 0")
  case True
  then show ?thesis by (simp add: rxp_search_dispatch_def)
next
  case False
  show ?thesis
  proof (cases "match_count resp < detected_match_count resp")
    case True
    with False inb show ?thesis
      by (simp add: rxp_search_dispatch_def Let_def dispatch_matches_resolved [OF res])
  next
    case False
    with \<open>match_count resp \<noteq> 0\<close> inb show ?thesis
      by (simp add: rxp_search_dispatch_def Let_def dispatch_matches_resolved [OF res])
  qed
qed

lemma rxp_search_job_store:
  assumes "rxp_search_job api m buf n s = Some (s3, pkt, resp)"
  shows "pattern_store s3 = pattern_store s \<and> match_limit s3 = match_limit s"
  using rxp_search_job_frame [OF assms] by auto

lemma two_contexts_instance: "deref (mpse_store two_contexts) 1 = Inr one_instance"
  by (simp add: two_contexts_def deref_def)

lemma owner_GET:
  "owner (ruleidtbl one_instance) (pattern_store two_contexts) (GET_at_7\<lparr>start_ptr := k\<rparr>) =
     Some (pattern_store two_contexts ! 0)"
  by (simp add: owner_def one_instance_def two_contexts_def GET_at_7_def deref_def)

lemma entry_contexts_GET:
  "entry_contexts (ruleidtbl one_instance) (pattern_store two_contexts) (GET_at_7\<lparr>start_ptr := k\<rparr>) =
     [(int k + 3, \<lparr>user = 11, user_tree = 0, user_list = 0\<rparr>),
      (int k + 3, \<lparr>user = 22, user_tree = 0, user_list = 0\<rparr>)]"
  by (simp add: entry_contexts_def owner_GET) (simp add: two_contexts_def GET_at_7_def)

lemma GET_at_7_self: "GET_at_7 = GET_at_7\<lparr>start_ptr := 7\<rparr>"
  by (simp add: GET_at_7_def)

lemma search_two_contexts:
  "rxp_search (answering resp) 1 GET n stop_match 5 (two_contexts\<lparr>trace := tr\<rparr>) =
     Some (rxp_search_dispatch (answering resp) one_instance stop_match 5 1 resp
       (two_contexts\<lparr>jobs_submitted := 1, env := 0,
          trace := tr @ (if 16384 < n then [LogTruncating n 16384] else [])
                      @ [PrepareJob 1 (if 16384 < n then 16384 else n) 1]\<rparr>))"
proof -
  have m: "deref (mpse_store (two_contexts\<lparr>trace := tr\<rparr>)) 1 = Inr one_instance"
    by (simp add: two_contexts_def deref_def)
  have "instance_id one_instance = 1" "jobs_submitted two_contexts = 0"
    by (simp_all add: one_instance_def two_contexts_def)
  with rxp_search_parts [OF m job_answering, of resp GET n stop_match 5]
  show ?thesis by simp
qed

lemma rxp_search_job_run:
  assumes prep: "rxp_prepare_job api (portid s) (jobs_submitted s + 1) buf
                   (if RXP_MAX_JOB_LENGTH api < n then RXP_MAX_JOB_LENGTH api else n)
                   (instance_id m) (env s) = (job_buf, e1)"
    and poll: "poll_responses api (portid s)
                 (rxp_dispatch_jobs api (portid s) (rxp_enqueue_job api (portid s) job_buf e1)) =
               Some (pkt, e4)"
    and dec: "rxp_get_response_data api pkt e4 = (ret, resp)"
  shows "rxp_search_job api m buf n s =
           Some (s\<lparr>jobs_submitted := jobs_submitted s + 1, env := e4,
                    trace := trace s
                      @ (if RXP_MAX_JOB_LENGTH api < n then [LogTruncating n (RXP_MAX_JOB_LENGTH api)] else [])
                      @ [PrepareJob (jobs_submitted s + 1)
                           (if RXP_MAX_JOB_LENGTH api < n then RXP_MAX_JOB_LENGTH api else n) (instance_id m)]
                      @ (if ret \<noteq> 0 then [LogDecodeError ret] else [])\<rparr>,
                 pkt, resp)"
proof (cases "RXP_MAX_JOB_LENGTH api < n")
  case True
  with prep have p: "rxp_prepare_job api (portid s) (jobs_submitted s + 1) buf
      (RXP_MAX_JOB_LENGTH api) (instance_id m) (env s) = (job_buf, e1)" by simp
  from True show ?thesis
    by (simp add: rxp_search_job_def Let_def p poll dec)
next
  case False
  with prep have p: "rxp_prepare_job api (portid s) (jobs_submitted s + 1) buf n
      (instance_id m) (env s) = (job_buf, e1)" by simp
  from False show ?thesis
    by (simp add: rxp_search_job_def Let_def p poll dec)
qed

lemma rxp_search_returns:
  assumes m: "deref (mpse_store s) this = Inr m"
    and prep: "rxp_prepare_job api (portid s) (jobs_submitted s + 1) buf
                 (if RXP_MAX_JOB_LENGTH api < n then RXP_MAX_JOB_LENGTH api else n)
                 (instance_id m) (env s) = (job_buf, e1)"
    and poll: "poll_responses api (portid s)
                 (rxp_dispatch_jobs api (portid s) (rxp_enqueue_job api (portid s) job_buf e1)) =
               Some (pkt, e4)"
    and dec: "rxp_get_response_data api pkt e4 = (ret, resp)"
    and inb: "match_count resp \<le> length (match_data resp)"
    and res: "\<forall>md\<in>set (take (match_count resp) (match_data resp)).
                owner (ruleidtbl m) (pattern_store s) md \<noteq> None"
  shows "rxp_search api this buf n mf pv s =
           Some (Inr (0, s\<lparr>jobs_submitted := jobs_submitted s + 1,
                            match_limit :=
                              (if match_count resp \<noteq> 0 \<and> match_count resp < detected_match_count resp
                               then match_limit s + 1 else match_limit s),
                            env := rxp_free_buffer api pkt
                              (foldl (match_effect mf pv) e4
                                 (concat (map (entry_contexts (ruleidtbl m) (pattern_store s))
                                    (take (match_count resp) (match_data resp))))),
                            trace := trace s
                              @ (if RXP_MAX_JOB_LENGTH api < n
                                 then [LogTruncating n (RXP_MAX_JOB_LENGTH api)] else [])
                              @ [PrepareJob (jobs_submitted s + 1)
                                   (if RXP_MAX_JOB_LENGTH api < n then RXP_MAX_JOB_LENGTH api else n)
                                   (instance_id m)]
                              @ (if ret \<noteq> 0 then [LogDecodeError ret] else [])
                              @ (if match_count resp \<noteq> 0 \<and> match_count resp < detected_match_count resp
                                 then [LogMatchLimit (detected_match_count resp) (match_count resp)] else [])
                              @ map (match_event pv)
                                  (concat (map (entry_contexts (ruleidtbl m) (pattern_store s))
                                     (take (match_count resp) (match_data resp))))\<rparr>))"
proof -
  let ?s3 = "s\<lparr>jobs_submitted := jobs_submitted s + 1, env := e4,
                    trace := trace s
                      @ (if RXP_MAX_JOB_LENGTH api < n then [LogTruncating n (RXP_MAX_JOB_LENGTH api)] else [])
                      @ [PrepareJob (jobs_submitted s + 1)
                           (if RXP_MAX_JOB_LENGTH api < n then RXP_MAX_JOB_LENGTH api else n) (instance_id m)]
                      @ (if ret \<noteq> 0 then [LogDecodeError ret] else [])\<rparr>"
  note job = rxp_search_job_run [OF prep poll dec]
  from res have res3: "\<forall>md\<in>set (take (match_count resp) (match_data resp)).
      owner (ruleidtbl m) (pattern_store ?s3) md \<noteq> None"
    by simp
  show ?thesis
    unfolding rxp_search_parts [OF m job] rxp_search_dispatch_resolved [OF inb res3]
    by simp
qed


lemma rxp_search_unresolved_entry:
  assumes m: "deref (mpse_store s) this = Inr m"
    and job: "rxp_search_job api m buf n s = Some (s3, pkt, resp)"
    and split: "take (match_count resp) (match_data resp) = pre @ md # post"
    and pre: "\<forall>x\<in>set pre. owner (ruleidtbl m) (pattern_store s) x \<noteq> None"
    and unk: "ruleidtbl m (int (rule_id md)) = None"
  shows "rxp_search api this buf n mf pv s = Some (Inl NullDeref)"
proof -
  note st = rxp_search_job_store [OF job]
  have ne: "match_count resp \<noteq> 0"
  proof
    assume "match_count resp = 0"
    with split show False by simp
  qed
  from pre st have pre3: "\<forall>x\<in>set pre. owner (ruleidtbl m) (pattern_store s3) x \<noteq> None" by simp
  have "rxp_search_dispatch api m mf pv pkt resp s3 = Inl NullDeref"
    using ne by (simp add: rxp_search_dispatch_def Let_def split dispatch_matches_unresolved [OF pre3 unk])
  then show ?thesis
    by (simp add: rxp_search_parts [OF m job])
qed

subsection \<open>Properties of finalisation\<close>

lemma user_ctor_ctxs_calls:
  "user_ctor_ctxs a sc neg p i cs e tr = (cs', e', tr') \<Longrightarrow>
     tr' = tr @ concat (map (\<lambda>(j, u). context_calls sc neg p j u) (enumerate i (map user cs))) \<and>
     map user cs' = map user cs"
proof (induction cs arbitrary: i e tr cs' e' tr')
  case Nil
  then show ?case by simp
next
  case (Cons c cs)
  let ?r1 = "if user c \<noteq> 0 then
               (if neg then
                  (case negate_list a (user c) (user_list c) e of
                     (l, e') \<Rightarrow> (c\<lparr>user_list := l\<rparr>, e', tr @ [NegateList (user c) (p, i)]))
                else
                  (case build_tree a sc (user c) (user_tree c) e of
                     (t, e') \<Rightarrow> (c\<lparr>user_tree := t\<rparr>, e', tr @ [BuildTree sc (user c) (p, i)])))
             else (c, e, tr)"
  obtain c1 e1 tr1 where r1: "?r1 = (c1, e1, tr1)"
    by (cases ?r1) blast
  then have first: "user c1 = user c \<and>
      tr1 = tr @ (if user c \<noteq> 0
                  then [if neg then NegateList (user c) (p, i) else BuildTree sc (user c) (p, i)]
                  else [])"
    by (auto split: if_splits prod.splits)
  obtain t e2 where bt: "build_tree a sc 0 (user_tree c1) e1 = (t, e2)"
    by fastforce
  obtain cs2 e3 tr3 where
    rec: "user_ctor_ctxs a sc neg p (Suc i) cs e2 (tr1 @ [BuildTree sc 0 (p, i)]) = (cs2, e3, tr3)"
    by (cases "user_ctor_ctxs a sc neg p (Suc i) cs e2 (tr1 @ [BuildTree sc 0 (p, i)])") blast
  have "user_ctor_ctxs a sc neg p i (c # cs) e tr = (c1\<lparr>user_tree := t\<rparr> # cs2, e3, tr3)"
    by (simp only: user_ctor_ctxs.simps r1 bt rec Let_def prod.case)
  with Cons.prems have res: "cs' = c1\<lparr>user_tree := t\<rparr> # cs2" "tr' = tr3" by simp_all
  from Cons.IH [OF rec]
  have ih: "tr3 = (tr1 @ [BuildTree sc 0 (p, i)])
                @ concat (map (\<lambda>(j, u). context_calls sc neg p j u) (enumerate (Suc i) (map user cs)))"
    "map user cs2 = map user cs"
    by simp_all
  from first ih res show ?case
    by (simp add: context_calls_def)
qed

lemma deref_valid_iff: "(\<exists>obj. deref store p = Inr obj) \<longleftrightarrow> p \<noteq> 0 \<and> p \<le> length store"
  by (auto simp: deref_def)

lemma shape_length: "shape store' = shape store \<Longrightarrow> length store' = length store"
proof -
  assume "shape store' = shape store"
  then have "length (shape store') = length (shape store)" by simp
  then show ?thesis by (simp add: shape_def)
qed

lemma shape_nth:
  assumes "shape store' = shape store" and "k < length store"
  shows "negate (store' ! k) = negate (store ! k) \<and>
         map user (userctx (store' ! k)) = map user (userctx (store ! k))"
proof -
  from assms(2) shape_length [OF assms(1)] have k': "k < length store'" by simp
  from assms(1) have "shape store' ! k = shape store ! k" by simp
  with assms(2) k' show ?thesis by (simp add: shape_def)
qed

lemma finalize_calls_shape:
  assumes "shape store' = shape store"
  shows "finalize_calls sc store' p = finalize_calls sc store p"
proof (cases "p \<noteq> 0 \<and> p \<le> length store")
  case True
  then have k: "p - 1 < length store" by (cases p) auto
  from True shape_length [OF assms]
  have d: "deref store' p = Inr (store' ! (p - 1))" "deref store p = Inr (store ! (p - 1))"
    by (simp_all add: deref_def)
  from shape_nth [OF assms k] show ?thesis
    by (simp add: finalize_calls_def d)
next
  case False
  with shape_length [OF assms] show ?thesis
    by (auto simp: finalize_calls_def deref_def)
qed

lemma shape_update:
  assumes "deref store p = Inr obj" and "map user cs = map user (userctx obj)"
  shows "shape (store[p - 1 := obj\<lparr>userctx := cs\<rparr>]) = shape store"
proof -
  from assms(1) have k: "p - 1 < length store" and o: "obj = store ! (p - 1)"
    by (auto simp: deref_def split: if_splits)
  have "shape (store[p - 1 := obj\<lparr>userctx := cs\<rparr>]) = (shape store)[p - 1 := shape store ! (p - 1)]"
    using k o assms(2) by (simp add: shape_def map_update)
  then show ?thesis by (simp only: list_update_id)
qed

lemma user_ctor_pats_calls:
  assumes "\<forall>p\<in>set ps. \<exists>obj. deref store p = Inr obj"
  shows "\<exists>store' e' tr'. user_ctor_pats a sc ps store e tr = Inr (store', e', tr') \<and>
           tr' = tr @ concat (map (finalize_calls sc store) ps) \<and> shape store' = shape store"
  using assms
proof (induction ps arbitrary: store e tr)
  case Nil
  show ?case by simp
next
  case (Cons p ps)
  from Cons.prems obtain obj where obj: "deref store p = Inr obj" by auto
  obtain cs e1 tr1 where
    ctx: "user_ctor_ctxs a sc (negate obj) p 0 (userctx obj) e tr = (cs, e1, tr1)"
    by (cases "user_ctor_ctxs a sc (negate obj) p 0 (userctx obj) e tr") blast
  from user_ctor_ctxs_calls [OF ctx]
  have tr1: "tr1 = tr @ finalize_calls sc store p" and us: "map user cs = map user (userctx obj)"
    by (simp_all add: finalize_calls_def obj)
  let ?store1 = "store[p - 1 := obj\<lparr>userctx := cs\<rparr>]"
  note sh = shape_update [OF obj us]
  have valid: "\<forall>q\<in>set ps. \<exists>obj. deref ?store1 q = Inr obj"
    using Cons.prems by (simp add: deref_valid_iff)
  from Cons.IH [OF valid, of e1 tr1] obtain store' e' tr' where
    rec: "user_ctor_pats a sc ps ?store1 e1 tr1 = Inr (store', e', tr')"
      "tr' = tr1 @ concat (map (finalize_calls sc ?store1) ps)" "shape store' = shape ?store1"
    by (elim exE conjE)
  have same: "finalize_calls sc ?store1 = finalize_calls sc store"
    by (rule ext) (rule finalize_calls_shape [OF sh])
  have r1: "user_ctor_pats a sc (p # ps) store e tr = Inr (store', e', tr')"
    using rec(1) by (simp add: obj ctx)
  have r2: "tr' = tr @ concat (map (finalize_calls sc store) (p # ps))"
    unfolding rec(2) same tr1 by simp
  have r3: "shape store' = shape store"
    unfolding rec(3) by (rule sh)
  show ?case
    by (intro exI [of _ store'] exI [of _ e'] exI [of _ tr'] conjI r1 r2 r3)
qed

lemma null_tree_context_calls:
  "length (filter (null_tree_for p) (context_calls sc neg q i u)) = (if q = p then 1 else 0)"
  by (simp add: context_calls_def)

lemma null_tree_contexts:
  "length (filter (null_tree_for p)
     (concat (map (\<lambda>(i, u). context_calls sc neg q i u) (enumerate k us)))) =
   (if q = p then length us else 0)"
proof (induction us arbitrary: k)
  case Nil
  show ?case by simp
next
  case (Cons u us)
  have "length (filter (null_tree_for p)
          (concat (map (\<lambda>(i, u). context_calls sc neg q i u) (enumerate k (u # us))))) =
        length (filter (null_tree_for p) (context_calls sc neg q k u)) +
        length (filter (null_tree_for p)
          (concat (map (\<lambda>(i, u). context_calls sc neg q i u) (enumerate (Suc k) us))))"
    by simp
  also have "\<dots> = (if q = p then 1 else 0) + (if q = p then length us else 0)"
    by (simp only: Cons.IH null_tree_context_calls)
  finally show ?case by simp
qed

lemma null_tree_finalize_calls:
  "length (filter (null_tree_for p) (finalize_calls sc store q)) =
     (if q = p then (case deref store p of Inl f \<Rightarrow> 0 | Inr obj \<Rightarrow> length (userctx obj)) else 0)"
proof (cases "deref store q")
  case (Inl f)
  then show ?thesis by (cases "q = p") (simp_all add: finalize_calls_def)
next
  case (Inr obj)
  have c: "length (filter (null_tree_for p) (finalize_calls sc store q)) =
        (if q = p then length (map user (userctx obj)) else 0)"
    unfolding finalize_calls_def Inr sum.case by (rule null_tree_contexts)
  show ?thesis
  proof (cases "q = p")
    case True
    with Inr have "deref store p = Inr obj" by simp
    with c True show ?thesis by simp
  next
    case False
    with c show ?thesis by simp
  qed
qed

lemma null_tree_absent:
  "p \<notin> set ps \<Longrightarrow> filter (null_tree_for p) (concat (map (finalize_calls sc store) ps)) = []"
proof (induction ps)
  case Nil
  show ?case by simp
next
  case (Cons q ps)
  then have "q \<noteq> p" by auto
  with null_tree_finalize_calls [of p sc store q]
  have "filter (null_tree_for p) (finalize_calls sc store q) = []" by simp
  with Cons show ?case by simp
qed

lemma null_tree_pats:
  assumes "distinct ps" and "p \<in> set ps" and "deref store p = Inr obj"
  shows "length (filter (null_tree_for p) (concat (map (finalize_calls sc store) ps))) =
           length (userctx obj)"
  using assms(1,2)
proof (induction ps)
  case Nil
  then show ?case by simp
next
  case (Cons q ps)
  show ?case
  proof (cases "q = p")
    case True
    with Cons.prems have "p \<notin> set ps" by simp
    from null_tree_absent [OF this] True null_tree_finalize_calls [of p sc store p] assms(3)
    show ?thesis by simp
  next
    case False
    with Cons.prems have "distinct ps" "p \<in> set ps" by auto
    from Cons.IH [OF this] False null_tree_finalize_calls [of p sc store q]
    show ?thesis by simp
  qed
qed

lemma escape_POST: "rxp_escape_pattern POST = Some ''POST''"
proof -
  have e: "spec_escape [80, 79, 83, 84] = ''POST''" by code_simp
  show ?thesis by (simp add: POST_def rxp_escape_pattern_def escape_loop_spec e)
qed

lemma length_POST: "length POST = 4"
  by (simp add: POST_def)

lemma three_rules_reached: "add_pattern 1 POST negated 33 two_contexts = Inr (0, three_rules)"
  by (simp add: add_pattern_def escape_POST length_POST deref_def Let_def UserCtx_ctor_def
      RxpPattern_ctor_def negated_def one_instance_def two_contexts_def three_rules_def)
     (simp add: numeral_2_eq_2)

lemma user_ctor_calls:
  assumes m: "deref (mpse_store s) this = Inr m"
    and valid: "\<forall>p\<in>set (pats m). \<exists>obj. deref (pattern_store s) p = Inr obj"
  shows "\<exists>store' e'. user_ctor this sc s =
           Inr (s\<lparr>pattern_store := store', env := e',
                   trace := trace s @ concat (map (finalize_calls sc (pattern_store s)) (pats m))\<rparr>) \<and>
           shape store' = shape (pattern_store s)"
proof -
  from user_ctor_pats_calls [OF valid, of "agent m" sc "env s" "trace s"]
  obtain store' e' tr' where
    r: "user_ctor_pats (agent m) sc (pats m) (pattern_store s) (env s) (trace s) = Inr (store', e', tr')"
      "tr' = trace s @ concat (map (finalize_calls sc (pattern_store s)) (pats m))"
      "shape store' = shape (pattern_store s)"
    by (elim exE conjE)
  have "user_ctor this sc s =
           Inr (s\<lparr>pattern_store := store', env := e',
                   trace := trace s @ concat (map (finalize_calls sc (pattern_store s)) (pats m))\<rparr>)"
    by (simp add: user_ctor_def m r(1) r(2))
  with r(3) show ?thesis
    by (intro exI [of _ store'] exI [of _ e'] conjI)
qed

lemma three_rules_instance:
  "deref (mpse_store three_rules) 1 =
     Inr \<lparr>agent = fresh_agent, ruleidtbl = [1 \<mapsto> 1, 2 \<mapsto> 2], instance_id = 1, pats = [1, 2]\<rparr>"
  by (simp add: three_rules_def deref_def)

lemma agent_effect_tree:
  assumes "p - 1 < length store" and "userctx (store ! (p - 1)) = pre @ c # cs"
    and "build_tree a sc u (user_tree c) e = (t, e')"
  shows "agent_effect a (store, e) (BuildTree sc u (p, length pre)) =
           (store[p - 1 := (store ! (p - 1))\<lparr>userctx := pre @ c\<lparr>user_tree := t\<rparr> # cs\<rparr>], e')"
  using assms by (simp add: Let_def list_update_append)

lemma agent_effect_list:
  assumes "p - 1 < length store" and "userctx (store ! (p - 1)) = pre @ c # cs"
    and "negate_list a u (user_list c) e = (l, e')"
  shows "agent_effect a (store, e) (NegateList u (p, length pre)) =
           (store[p - 1 := (store ! (p - 1))\<lparr>userctx := pre @ c\<lparr>user_list := l\<rparr> # cs\<rparr>], e')"
  using assms by (simp add: Let_def list_update_append)

lemma context_effect:
  assumes k: "p - 1 < length store" and u: "userctx (store ! (p - 1)) = pre @ c # cs"
    and r: "user_ctor_ctxs a sc neg p (length pre) [c] e tr = ([c'], e', tr')"
  shows "foldl (agent_effect a) (store, e) (context_calls sc neg p (length pre) (user c)) =
           (store[p - 1 := (store ! (p - 1))\<lparr>userctx := pre @ c' # cs\<rparr>], e')"
proof -
  let ?obj = "store ! (p - 1)"
  show ?thesis
  proof (cases "user c = 0")
    case True
    obtain t e2 where bt: "build_tree a sc 0 (user_tree c) e = (t, e2)" by fastforce
    from r True bt have c': "c' = c\<lparr>user_tree := t\<rparr>" "e' = e2" by (simp_all add: Let_def)
    from agent_effect_tree [OF k u bt] True c' show ?thesis
      by (simp add: context_calls_def)
  next
    case False
    show ?thesis
    proof (cases neg)
      case True
      obtain l e1 where nl: "negate_list a (user c) (user_list c) e = (l, e1)" by fastforce
      obtain t e2 where bt: "build_tree a sc 0 (user_tree (c\<lparr>user_list := l\<rparr>)) e1 = (t, e2)" by fastforce
      from r False True nl bt have c': "c' = c\<lparr>user_list := l, user_tree := t\<rparr>" "e' = e2"
        by (simp_all add: Let_def)
      let ?store1 = "store[p - 1 := ?obj\<lparr>userctx := pre @ c\<lparr>user_list := l\<rparr> # cs\<rparr>]"
      have s1: "agent_effect a (store, e) (NegateList (user c) (p, length pre)) = (?store1, e1)"
        by (rule agent_effect_list [OF k u nl])
      have k1: "p - 1 < length ?store1" using k by simp
      have u1: "userctx (?store1 ! (p - 1)) = pre @ c\<lparr>user_list := l\<rparr> # cs" using k by simp
      from agent_effect_tree [OF k1 u1 bt] k
      have s2: "agent_effect a (?store1, e1) (BuildTree sc 0 (p, length pre)) =
                  (store[p - 1 := ?obj\<lparr>userctx := pre @ c' # cs\<rparr>], e')"
        by (simp add: c')
      from False True s1 s2 show ?thesis by (simp add: context_calls_def)
    next
      case neg: False
      obtain t1 e1 where b1: "build_tree a sc (user c) (user_tree c) e = (t1, e1)" by fastforce
      obtain t e2 where bt: "build_tree a sc 0 (user_tree (c\<lparr>user_tree := t1\<rparr>)) e1 = (t, e2)" by fastforce
      from r False neg b1 bt have c': "c' = c\<lparr>user_tree := t\<rparr>" "e' = e2"
        by (simp_all add: Let_def)
      let ?store1 = "store[p - 1 := ?obj\<lparr>userctx := pre @ c\<lparr>user_tree := t1\<rparr> # cs\<rparr>]"
      have s1: "agent_effect a (store, e) (BuildTree sc (user c) (p, length pre)) = (?store1, e1)"
        by (rule agent_effect_tree [OF k u b1])
      have k1: "p - 1 < length ?store1" using k by simp
      have u1: "userctx (?store1 ! (p - 1)) = pre @ c\<lparr>user_tree := t1\<rparr> # cs" using k by simp
      from agent_effect_tree [OF k1 u1 bt] k
      have s2: "agent_effect a (?store1, e1) (BuildTree sc 0 (p, length pre)) =
                  (store[p - 1 := ?obj\<lparr>userctx := pre @ c' # cs\<rparr>], e')"
        by (simp add: c')
      from False neg s1 s2 show ?thesis by (simp add: context_calls_def)
    qed
  qed
qed

lemma user_ctor_ctxs_Cons:
  "user_ctor_ctxs a sc neg p i (c # cs) e tr =
     (case user_ctor_ctxs a sc neg p i [c] e tr of
        (cs1, e1, tr1) \<Rightarrow>
          (case user_ctor_ctxs a sc neg p (Suc i) cs e1 tr1 of
             (cs2, e2, tr2) \<Rightarrow> (cs1 @ cs2, e2, tr2)))"
  by (simp add: Let_def split: prod.splits if_splits)

lemma user_ctor_ctxs_single:
  "\<exists>c' e1 tr1. user_ctor_ctxs a sc neg p i [c] e tr = ([c'], e1, tr1)"
  by (simp add: Let_def split: prod.splits if_splits)

lemma contexts_effect:
  assumes "p - 1 < length store" and "userctx (store ! (p - 1)) = pre @ cs"
    and "user_ctor_ctxs a sc neg p (length pre) cs e tr = (cs', e', tr')"
  shows "foldl (agent_effect a) (store, e)
           (concat (map (\<lambda>(j, u). context_calls sc neg p j u) (enumerate (length pre) (map user cs)))) =
         (store[p - 1 := (store ! (p - 1))\<lparr>userctx := pre @ cs'\<rparr>], e')"
  using assms
proof (induction cs arbitrary: pre store e tr cs' e' tr')
  case Nil
  then have "cs' = []" "e' = e" by simp_all
  moreover from Nil.prems(2) have "pre = userctx (store ! (p - 1))" by simp
  then have "(store ! (p - 1))\<lparr>userctx := pre @ []\<rparr> = store ! (p - 1)" by simp
  then have "store[p - 1 := (store ! (p - 1))\<lparr>userctx := pre @ []\<rparr>] = store"
    by (simp only: list_update_id)
  ultimately show ?case by simp
next
  case (Cons c cs)
  from user_ctor_ctxs_single [of a sc neg p "length pre" c e tr]
  obtain c1 e1 tr1 where one: "user_ctor_ctxs a sc neg p (length pre) [c] e tr = ([c1], e1, tr1)"
    by (elim exE)
  obtain cs2 e2 tr2 where rest: "user_ctor_ctxs a sc neg p (Suc (length pre)) cs e1 tr1 = (cs2, e2, tr2)"
    by (cases "user_ctor_ctxs a sc neg p (Suc (length pre)) cs e1 tr1") blast
  have "user_ctor_ctxs a sc neg p (length pre) (c # cs) e tr = ([c1] @ cs2, e2, tr2)"
    by (subst user_ctor_ctxs_Cons) (simp only: one rest prod.case)
  with Cons.prems(3) have res: "cs' = c1 # cs2" "e' = e2" by simp_all
  let ?store1 = "store[p - 1 := (store ! (p - 1))\<lparr>userctx := pre @ c1 # cs\<rparr>]"
  have step: "foldl (agent_effect a) (store, e) (context_calls sc neg p (length pre) (user c)) = (?store1, e1)"
    by (rule context_effect [OF Cons.prems(1) Cons.prems(2) one])
  have k1: "p - 1 < length ?store1" using Cons.prems(1) by simp
  have u1: "userctx (?store1 ! (p - 1)) = (pre @ [c1]) @ cs" using Cons.prems(1) by simp
  have r1: "user_ctor_ctxs a sc neg p (length (pre @ [c1])) cs e1 tr1 = (cs2, e2, tr2)"
    using rest by simp
  from Cons.IH [OF k1 u1 r1]
  have ih: "foldl (agent_effect a) (?store1, e1)
           (concat (map (\<lambda>(j, u). context_calls sc neg p j u) (enumerate (Suc (length pre)) (map user cs)))) =
         (store[p - 1 := (store ! (p - 1))\<lparr>userctx := pre @ c1 # cs2\<rparr>], e2)"
    using Cons.prems(1) by simp
  show ?case
    using step ih res by simp
qed

lemma user_ctor_pats_effect:
  assumes "\<forall>p\<in>set ps. \<exists>obj. deref store p = Inr obj"
    and "user_ctor_pats a sc ps store e tr = Inr (store', e', tr')"
  shows "foldl (agent_effect a) (store, e) (concat (map (finalize_calls sc store) ps)) = (store', e')"
  using assms
proof (induction ps arbitrary: store e tr)
  case Nil
  then show ?case by simp
next
  case (Cons p ps)
  from Cons.prems(1) obtain obj where obj: "deref store p = Inr obj" by auto
  then have k: "p - 1 < length store" and o: "obj = store ! (p - 1)"
    by (auto simp: deref_def split: if_splits)
  obtain cs e1 tr1 where
    ctx: "user_ctor_ctxs a sc (negate obj) p 0 (userctx obj) e tr = (cs, e1, tr1)"
    by (cases "user_ctor_ctxs a sc (negate obj) p 0 (userctx obj) e tr") blast
  from user_ctor_ctxs_calls [OF ctx] have us: "map user cs = map user (userctx obj)" by simp
  let ?store1 = "store[p - 1 := obj\<lparr>userctx := cs\<rparr>]"
  have u0: "userctx (store ! (p - 1)) = [] @ userctx obj" using o by simp
  have c0: "user_ctor_ctxs a sc (negate obj) p (length ([] :: UserCtx list)) (userctx obj) e tr = (cs, e1, tr1)"
    using ctx by simp
  from contexts_effect [OF k u0 c0]
  have first: "foldl (agent_effect a) (store, e) (finalize_calls sc store p) = (?store1, e1)"
    using o by (simp add: finalize_calls_def obj)
  note sh = shape_update [OF obj us]
  have same: "finalize_calls sc ?store1 = finalize_calls sc store"
    by (rule ext) (rule finalize_calls_shape [OF sh])
  have valid: "\<forall>q\<in>set ps. \<exists>obj. deref ?store1 q = Inr obj"
    using Cons.prems(1) by (simp add: deref_valid_iff)
  from Cons.prems(2) have rest: "user_ctor_pats a sc ps ?store1 e1 tr1 = Inr (store', e', tr')"
    by (simp add: obj ctx)
  from Cons.IH [OF valid rest]
  have ih: "foldl (agent_effect a) (?store1, e1) (concat (map (finalize_calls sc store) ps)) = (store', e')"
    unfolding same .
  show ?case
    using first ih by simp
qed

subsection \<open>The registry on instances whose patterns hold text\<close>

text \<open>
  On an instance whose patterns all hold text, a call whose bytes escape to the text of
  a held pattern appends one context with the given handle and empty slots to the first
  such pattern, adds one to \<^verbatim>\<open>duplicates\<close> and leaves the identifier counter, the
  instance and every other pattern alone; a call whose text no held pattern has makes
  \<^verbatim>\<open>get_pattern_count\<close> one more.
\<close>

lemma add_pattern_duplicate_or_new:
  assumes m: "deref (mpse_store s) this = Inr m"
    and wf: "\<forall>p\<in>set (pats m). text_at (pattern_store s) p \<noteq> None"
    and esc: "rxp_escape_pattern bytes = Some t"
  shows "(\<forall>p. find (\<lambda>p. text_at (pattern_store s) p = Some t) (pats m) = Some p \<longrightarrow>
           (\<exists>obj s'. deref (pattern_store s) p = Inr obj \<and>
              add_pattern this bytes desc usr s = Inr (0, s') \<and>
              deref (pattern_store s') p =
                Inr (obj\<lparr>userctx := userctx obj @ [\<lparr>user = usr, user_tree = 0, user_list = 0\<rparr>]\<rparr>) \<and>
              (\<forall>q. q \<noteq> p \<longrightarrow> deref (pattern_store s') q = deref (pattern_store s) q) \<and>
              duplicates s' = duplicates s + 1 \<and>
              patterns s' = patterns s \<and>
              mpse_store s' = mpse_store s \<and>
              get_pattern_count this s' = get_pattern_count this s))
       \<and> (find (\<lambda>p. text_at (pattern_store s) p = Some t) (pats m) = None \<longrightarrow>
           (\<exists>s'. add_pattern this bytes desc usr s = Inr (0, s') \<and>
              get_pattern_count this s = Inr (int (length (pats m))) \<and>
              get_pattern_count this s' = Inr (int (length (pats m)) + 1)))"
proof (intro conjI allI impI)
  fix p
  assume f: "find (\<lambda>p. text_at (pattern_store s) p = Some t) (pats m) = Some p"
  from find_Some_text [OF f] have "text_at (pattern_store s) p = Some t" by simp
  note d = text_at_SomeD [OF this]
  let ?obj = "pattern_store s ! (p - 1)"
  let ?s' = "s\<lparr>duplicates := duplicates s + 1,
               pattern_store := (pattern_store s)
                 [p - 1 := ?obj\<lparr>userctx := userctx ?obj @ [UserCtx_ctor usr]\<rparr>]\<rparr>"
  from d have dp: "deref (pattern_store s) p = Inr ?obj" and p0: "p \<noteq> 0" by simp_all
  have run: "add_pattern this bytes desc usr s = Inr (0, ?s')"
    by (rule add_pattern_duplicate [OF m wf esc f])
  have same: "deref (pattern_store ?s') p = Inr (?obj\<lparr>userctx := userctx ?obj @ [UserCtx_ctor usr]\<rparr>)"
    using deref_update_same [OF dp] by simp
  have other: "\<forall>q. q \<noteq> p \<longrightarrow> deref (pattern_store ?s') q = deref (pattern_store s) q"
  proof (intro allI impI)
    fix q :: addr
    assume "q \<noteq> p"
    from deref_update_other [OF this p0] show "deref (pattern_store ?s') q = deref (pattern_store s) q"
      by simp
  qed
  have "duplicates ?s' = duplicates s + 1" "patterns ?s' = patterns s"
    "mpse_store ?s' = mpse_store s" "get_pattern_count this ?s' = get_pattern_count this s"
    by (simp_all add: get_pattern_count_def)
  with dp run same other
  show "\<exists>obj s'. deref (pattern_store s) p = Inr obj \<and>
              add_pattern this bytes desc usr s = Inr (0, s') \<and>
              deref (pattern_store s') p =
                Inr (obj\<lparr>userctx := userctx obj @ [\<lparr>user = usr, user_tree = 0, user_list = 0\<rparr>]\<rparr>) \<and>
              (\<forall>q. q \<noteq> p \<longrightarrow> deref (pattern_store s') q = deref (pattern_store s) q) \<and>
              duplicates s' = duplicates s + 1 \<and>
              patterns s' = patterns s \<and>
              mpse_store s' = mpse_store s \<and>
              get_pattern_count this s' = get_pattern_count this s"
    unfolding UserCtx_ctor_def [symmetric] by blast
next
  assume f: "find (\<lambda>p. text_at (pattern_store s) p = Some t) (pats m) = None"
  note run = add_pattern_new [OF m wf esc f, of desc usr]
  have before: "get_pattern_count this s = Inr (int (length (pats m)))"
    using m by (simp add: get_pattern_count_def)
  have "\<And>m'. deref ((mpse_store s)[this - 1 := m']) this = Inr m'"
    using deref_update_same [OF m] by simp
  then have after: "\<And>m' s'. mpse_store s' = (mpse_store s)[this - 1 := m'] \<Longrightarrow>
      get_pattern_count this s' = Inr (int (length (pats m')))"
    by (simp add: get_pattern_count_def)
  show "\<exists>s'. add_pattern this bytes desc usr s = Inr (0, s') \<and>
              get_pattern_count this s = Inr (int (length (pats m))) \<and>
              get_pattern_count this s' = Inr (int (length (pats m)) + 1)"
    apply (rule exI)
    apply (intro conjI)
      apply (rule run)
     apply (rule before)
    apply (subst after)
     apply simp
    apply simp
    done
qed

lemma add_pattern_duplicate_or_new_example:
  "(\<exists>obj s'. deref (pattern_store one_pattern) 1 = Inr obj \<and>
      add_pattern 1 GET plain 22 one_pattern = Inr (0, s') \<and>
      deref (pattern_store s') 1 = Inr (obj\<lparr>userctx := userctx obj @ [\<lparr>user = 22, user_tree = 0, user_list = 0\<rparr>]\<rparr>) \<and>
      map user (userctx obj) = [11] \<and>
      duplicates s' = 1 \<and> patterns s' = 1 \<and>
      get_pattern_count 1 s' = Inr 1) \<and>
   (\<exists>s'. add_pattern 1 POST negated 33 one_pattern = Inr (0, s') \<and>
      get_pattern_count 1 one_pattern = Inr 1 \<and> get_pattern_count 1 s' = Inr 2)"
proof -
  have m: "deref (mpse_store one_pattern) 1 = Inr one_instance"
    by (simp add: one_pattern_def deref_def)
  have wf: "\<forall>p\<in>set (pats one_instance). text_at (pattern_store one_pattern) p \<noteq> None"
    by (simp add: one_pattern_def one_instance_def text_at_def deref_def)
  have f: "find (\<lambda>p. text_at (pattern_store one_pattern) p = Some ''GET'') (pats one_instance) = Some 1"
    by (simp add: one_pattern_def one_instance_def text_at_def deref_def)
  from add_pattern_duplicate_or_new [OF m wf escape_GET, of plain 22] f
  obtain obj s' where r: "deref (pattern_store one_pattern) 1 = Inr obj"
      "add_pattern 1 GET plain 22 one_pattern = Inr (0, s')"
      "deref (pattern_store s') 1 = Inr (obj\<lparr>userctx := userctx obj @ [\<lparr>user = 22, user_tree = 0, user_list = 0\<rparr>]\<rparr>)"
      "duplicates s' = duplicates one_pattern + 1" "patterns s' = patterns one_pattern"
      "get_pattern_count 1 s' = get_pattern_count 1 one_pattern"
    by blast
  from r(1) have "map user (userctx obj) = [11]"
    by (auto simp: one_pattern_def deref_def)
  moreover have "duplicates one_pattern + 1 = 1" "patterns one_pattern = 1"
    "get_pattern_count 1 one_pattern = Inr 1"
    by (simp_all add: one_pattern_def get_pattern_count_def deref_def one_instance_def)
  ultimately have first: "\<exists>obj s'. deref (pattern_store one_pattern) 1 = Inr obj \<and>
      add_pattern 1 GET plain 22 one_pattern = Inr (0, s') \<and>
      deref (pattern_store s') 1 = Inr (obj\<lparr>userctx := userctx obj @ [\<lparr>user = 22, user_tree = 0, user_list = 0\<rparr>]\<rparr>) \<and>
      map user (userctx obj) = [11] \<and>
      duplicates s' = 1 \<and> patterns s' = 1 \<and>
      get_pattern_count 1 s' = Inr 1"
    using r by auto
  have g: "find (\<lambda>p. text_at (pattern_store one_pattern) p = Some ''POST'') (pats one_instance) = None"
    by (simp add: one_pattern_def one_instance_def text_at_def deref_def)
  have len: "int (length (pats one_instance)) = 1"
    by (simp add: one_instance_def)
  from add_pattern_duplicate_or_new [OF m wf escape_POST, of negated 33] g
  obtain s2 where "add_pattern 1 POST negated 33 one_pattern = Inr (0, s2)"
      "get_pattern_count 1 one_pattern = Inr (int (length (pats one_instance)))"
      "get_pattern_count 1 s2 = Inr (int (length (pats one_instance)) + 1)"
    by blast
  with len have second: "\<exists>s'. add_pattern 1 POST negated 33 one_pattern = Inr (0, s') \<and>
      get_pattern_count 1 one_pattern = Inr 1 \<and> get_pattern_count 1 s' = Inr 2"
    by simp
  from first second show ?thesis by (rule conjI)
qed

subsection \<open>Rule identifiers while the counter fits the member\<close>

text \<open>
  From the start of the process and without a module reset, the first 65535 Patterns
  are assigned \<open>1, 2, 3, \<dots>\<close> in the order of their creation.
\<close>

lemma rule_ids_increasing_bounded:
  assumes "run cs (process_start e) = Inr s" and "length (pattern_store s) \<le> 65535"
  shows "map unat (assigned_ids s) = [1..<Suc (length (pattern_store s))] \<and>
         sorted_wrt (<) (map unat (assigned_ids s)) \<and> distinct (assigned_ids s)"
proof -
  from run_follow [OF assms(1) process_start_follow]
  have ids: "assigned_ids s = counter_ids (length (pattern_store s))"
    by (simp add: ids_follow_counter_def)
  with counter_ids_unat [OF assms(2)]
  have eq: "map unat (assigned_ids s) = [1..<Suc (length (pattern_store s))]" by simp
  then have sorted: "sorted_wrt (<) (map unat (assigned_ids s))"
    by (simp only: sorted_wrt_upt)
  have "distinct (map unat (assigned_ids s))"
    by (simp only: eq distinct_upt)
  then have "distinct (assigned_ids s)"
    by (simp add: distinct_map)
  with eq sorted show ?thesis by simp
qed

lemma rule_ids_increasing_bounded_example:
  "\<exists>s. run two_adds (process_start 0) = Inr s \<and> length (pattern_store s) \<le> 65535 \<and>
       map unat (assigned_ids s) = [1, 2] \<and> sorted_wrt (<) (map unat (assigned_ids s)) \<and>
       distinct (assigned_ids s)"
proof -
  have "\<exists>s. run two_adds (process_start (0::nat)) = Inr s \<and> length (pattern_store s) = 2"
    by (simp add: two_adds_def process_start_def rxp_ctor_def Let_def add_pattern_def
        deref_def escape_GET nth_append)
  then obtain s where s: "run two_adds (process_start (0::nat)) = Inr s" "length (pattern_store s) = 2"
    by blast
  then have le: "length (pattern_store s) \<le> 65535" by simp
  from rule_ids_increasing_bounded [OF s(1) le] s show ?thesis
    by (auto simp: upt_rec)
qed
subsection \<open>Claims\<close>

text \<open>
  C1. \<^verbatim>\<open>add_pattern\<close> does not test the null pointer that the escaper returns for
  zero-length bytes. On a freshly constructed instance such a call returns 0 and
  leaves a Pattern without text, which \<^verbatim>\<open>get_pattern_count\<close> counts. The next
  call on this instance, with the bytes \<^verbatim>\<open>"GET"\<close>, whose escaped text no held
  Pattern has, compares its text with the text of that Pattern and so dereferences the
  null pointer: the call does not return and the count is not raised.
\<close>

theorem add_pattern_after_empty_pattern:
  "\<exists>s1. add_pattern 1 [] plain 11 (snd (rxp_ctor fresh_agent (process_start 0))) = Inr (0, s1) \<and>
        get_pattern_count 1 s1 = Inr 1 \<and>
        map pat (pattern_store s1) = [None] \<and>
        rxp_escape_pattern GET = Some ''GET'' \<and>
        add_pattern 1 GET plain 22 s1 = Inl NullDeref"
  by (simp add: escape_GET)
     (simp add: rxp_escape_pattern_def add_pattern_def rxp_ctor_def process_start_def Let_def
      deref_def get_pattern_count_def RxpPattern_ctor_def UserCtx_ctor_def)

text \<open>
  C2. When the device answers the job and every entry that is dispatched has an owner,
  the search returns 0 and has invoked the callback once for every context of the
  owner of every dispatched entry, entry by entry and, within an entry, in the order
  of the contexts, with the end offset \<open>start + length\<close>: the calls are the only
  events after the match-limit warning, and the environment is the one these calls
  leave, in this order. The value a callback returns is not consulted: a callback
  that differs only in the values it returns gives the same search.
\<close>

theorem rxp_search_dispatches_every_context:
  assumes m: "deref (mpse_store s) this = Inr m"
    and job: "rxp_search_job api m buf n s = Some (s3, pkt, resp)"
    and inb: "match_count resp \<le> length (match_data resp)"
    and res: "\<forall>md\<in>set (take (match_count resp) (match_data resp)).
                owner (ruleidtbl m) (pattern_store s) md \<noteq> None"
  shows "\<exists>s'. rxp_search api this buf n mf pv s = Some (Inr (0, s')) \<and>
           trace s' = trace s3
             @ (if match_count resp \<noteq> 0 \<and> match_count resp < detected_match_count resp
                then [LogMatchLimit (detected_match_count resp) (match_count resp)] else [])
             @ map (match_event pv)
                 (concat (map (entry_contexts (ruleidtbl m) (pattern_store s))
                    (take (match_count resp) (match_data resp)))) \<and>
           env s' = rxp_free_buffer api pkt
             (foldl (match_effect mf pv) (env s3)
                (concat (map (entry_contexts (ruleidtbl m) (pattern_store s))
                   (take (match_count resp) (match_data resp))))) \<and>
           (\<forall>mf'. (\<forall>u t to pv l e. snd (mf' u t to pv l e) = snd (mf u t to pv l e)) \<longrightarrow>
              rxp_search api this buf n mf' pv s = rxp_search api this buf n mf pv s)"
proof -
  note st = rxp_search_job_store [OF job]
  from res st have res3: "\<forall>md\<in>set (take (match_count resp) (match_data resp)).
      owner (ruleidtbl m) (pattern_store s3) md \<noteq> None"
    by simp
  have indep: "rxp_search api this buf n mf' pv s = rxp_search api this buf n mf pv s"
    if "\<forall>u t to pv l e. snd (mf' u t to pv l e) = snd (mf u t to pv l e)" for mf'
  proof -
    from that have "\<And>u t to pv l e. snd (mf' u t to pv l e) = snd (mf u t to pv l e)" by blast
    note dm = dispatch_matches_mf [of mf' mf, OF this]
    have "rxp_search_dispatch api m mf' pv pkt resp s3 = rxp_search_dispatch api m mf pv pkt resp s3"
      by (simp add: rxp_search_dispatch_def dm)
    then show ?thesis
      by (simp add: rxp_search_parts [OF m job])
  qed
  let ?calls = "concat (map (entry_contexts (ruleidtbl m) (pattern_store s))
                    (take (match_count resp) (match_data resp)))"
  let ?warn = "if match_count resp \<noteq> 0 \<and> match_count resp < detected_match_count resp
               then [LogMatchLimit (detected_match_count resp) (match_count resp)] else []"
  let ?s' = "s3\<lparr>match_limit :=
                   (if match_count resp \<noteq> 0 \<and> match_count resp < detected_match_count resp
                    then match_limit s3 + 1 else match_limit s3),
                 env := rxp_free_buffer api pkt (foldl (match_effect mf pv) (env s3) ?calls),
                 trace := trace s3 @ ?warn @ map (match_event pv) ?calls\<rparr>"
  have run: "rxp_search api this buf n mf pv s = Some (Inr (0, ?s'))"
    using st by (simp add: rxp_search_parts [OF m job] rxp_search_dispatch_resolved [OF inb res3])
  show ?thesis
  proof (intro exI [of _ ?s'] conjI allI impI)
    show "rxp_search api this buf n mf pv s = Some (Inr (0, ?s'))" by (rule run)
    show "trace ?s' = trace s3 @ ?warn @ map (match_event pv) ?calls" by simp
    show "env ?s' = rxp_free_buffer api pkt (foldl (match_effect mf pv) (env s3) ?calls)" by simp
  next
    fix mf' :: "'a MpseMatch"
    assume "\<forall>u t to pv l e. snd (mf' u t to pv l e) = snd (mf u t to pv l e)"
    then show "rxp_search api this buf n mf' pv s = rxp_search api this buf n mf pv s"
      by (rule indep)
  qed
qed

theorem rxp_search_dispatches_every_context_witness:
  "(\<exists>s'. rxp_search (answering one_match) 1 GET 3 stop_match 5 two_contexts = Some (Inr (0, s')) \<and>
        trace s' = [PrepareJob 1 3 1, Match 11 0 10 5 0, Match 22 0 10 5 0] \<and> env s' = 2) \<and>
   rxp_search (answering one_match) 1 GET 3 go_match 5 two_contexts =
   rxp_search (answering one_match) 1 GET 3 stop_match 5 two_contexts"
proof -
  note job = job_answering [of one_match one_instance GET 3 two_contexts]
  have inb: "match_count one_match \<le> length (match_data one_match)"
    by (simp add: one_match_def)
  have res: "\<forall>md\<in>set (take (match_count one_match) (match_data one_match)).
      owner (ruleidtbl one_instance) (pattern_store two_contexts) md \<noteq> None"
    using owner_GET [of 7] by (simp add: one_match_def GET_at_7_self [symmetric])
  from rxp_search_dispatches_every_context [OF two_contexts_instance job inb res, of stop_match 5]
  obtain s' where s': "rxp_search (answering one_match) 1 GET 3 stop_match 5 two_contexts = Some (Inr (0, s'))"
    "trace s' = trace (two_contexts\<lparr>jobs_submitted := jobs_submitted two_contexts + 1, env := 0,
              trace := trace two_contexts
                @ (if (16384::int) < 3 then [LogTruncating 3 16384] else [])
                @ [PrepareJob (jobs_submitted two_contexts + 1) (if (16384::int) < 3 then 16384 else 3)
                     (instance_id one_instance)]\<rparr>)
       @ (if match_count one_match \<noteq> 0 \<and> match_count one_match < detected_match_count one_match
          then [LogMatchLimit (detected_match_count one_match) (match_count one_match)] else [])
       @ map (match_event 5)
           (concat (map (entry_contexts (ruleidtbl one_instance) (pattern_store two_contexts))
              (take (match_count one_match) (match_data one_match))))"
    "env s' = rxp_free_buffer (answering one_match) 1
       (foldl (match_effect stop_match 5)
          (env (two_contexts\<lparr>jobs_submitted := jobs_submitted two_contexts + 1, env := 0,
              trace := trace two_contexts
                @ (if (16384::int) < 3 then [LogTruncating 3 16384] else [])
                @ [PrepareJob (jobs_submitted two_contexts + 1) (if (16384::int) < 3 then 16384 else 3)
                     (instance_id one_instance)]\<rparr>))
          (concat (map (entry_contexts (ruleidtbl one_instance) (pattern_store two_contexts))
             (take (match_count one_match) (match_data one_match)))))"
    and indep: "\<forall>mf'. (\<forall>u t to pv l e. snd (mf' u t to pv l e) = snd (stop_match u t to pv l e)) \<longrightarrow>
        rxp_search (answering one_match) 1 GET 3 mf' 5 two_contexts =
        rxp_search (answering one_match) 1 GET 3 stop_match 5 two_contexts"
    by (elim exE conjE)
  have calls: "concat (map (entry_contexts (ruleidtbl one_instance) (pattern_store two_contexts))
             (take (match_count one_match) (match_data one_match))) =
     [(10, \<lparr>user = 11, user_tree = 0, user_list = 0\<rparr>),
      (10, \<lparr>user = 22, user_tree = 0, user_list = 0\<rparr>)]"
    using entry_contexts_GET [of 7] by (simp add: one_match_def GET_at_7_self [symmetric])
  have t: "trace s' = [PrepareJob 1 3 1, Match 11 0 10 5 0, Match 22 0 10 5 0]"
    unfolding s'(2) calls
    by (simp add: one_match_def match_event_def) (simp add: two_contexts_def one_instance_def)
  have e: "env s' = 2"
    unfolding s'(3) calls
    by (simp add: match_effect_def stop_match_def answering_def)
  have same: "rxp_search (answering one_match) 1 GET 3 go_match 5 two_contexts =
      rxp_search (answering one_match) 1 GET 3 stop_match 5 two_contexts"
    by (rule indep [rule_format]) (simp add: go_match_def stop_match_def)
  from s'(1) t e have "\<exists>s'. rxp_search (answering one_match) 1 GET 3 stop_match 5 two_contexts = Some (Inr (0, s')) \<and>
        trace s' = [PrepareJob 1 3 1, Match 11 0 10 5 0, Match 22 0 10 5 0] \<and> env s' = 2"
    by (intro exI [of _ s'] conjI)
  then show ?thesis using same by (rule conjI)
qed

text \<open>
  C3. The member \<^verbatim>\<open>ruleid\<close> has 16 bits and receives the 64-bit counter
  \<^verbatim>\<open>patterns\<close> without a test, and \<^verbatim>\<open>rxp_init\<close> sets the counter to zero
  while the instances keep their Patterns. When 65537 instances are constructed and
  \<^verbatim>\<open>"GET"\<close> is added to each, the 65536th Pattern is assigned 0 and the 65537th is
  assigned 1, the identifier of the first. When \<^verbatim>\<open>"POST"\<close> is added, after a
  module reset, to the instance that holds \<^verbatim>\<open>"GET"\<close> with identifier 1, it is
  assigned 1 as well and takes the table entry of \<^verbatim>\<open>"GET"\<close>.
\<close>

theorem rule_ids_repeat:
  "(\<exists>s. run (many_adds 65537) (process_start 0) = Inr s \<and> length (assigned_ids s) = 65537 \<and>
        assigned_ids s ! 0 = 1 \<and> assigned_ids s ! 65535 = 0 \<and> assigned_ids s ! 65536 = 1) \<and>
   add_pattern 1 GET plain 11 (snd (rxp_ctor fresh_agent (process_start 0))) = Inr (0, one_pattern) \<and>
   assigned_ids one_pattern = [1] \<and>
   (\<exists>s m. add_pattern 1 POST negated 33 (rxp_init one_pattern) = Inr (0, s) \<and>
        map pat (pattern_store s) = [Some ''GET'', Some ''POST''] \<and>
        assigned_ids s = [1, 1] \<and>
        deref (mpse_store s) 1 = Inr m \<and> pats m = [1, 2] \<and>
        ruleidtbl m 1 = Some 2 \<and> dom (ruleidtbl m) = {1})"
proof -
  have "length (mpse_store (process_start (0::nat))) = 0"
    by (simp add: process_start_def)
  from run_many_adds [OF this, of 65537]
  obtain s where s: "run (many_adds 65537) (process_start 0) = Inr s"
      "length (pattern_store s) = 65537"
    by (auto simp: process_start_def)
  from run_follow [OF s(1) process_start_follow] s(2)
  have ids: "assigned_ids s = counter_ids 65537"
    by (simp add: ids_follow_counter_def)
  have "counter_ids 65537 ! 0 = of_nat (Suc 0)" "counter_ids 65537 ! 65535 = of_nat (Suc 65535)"
    "counter_ids 65537 ! 65536 = of_nat (Suc 65536)"
    by (rule counter_ids_nth, simp)+
  then have "counter_ids 65537 ! 0 = 1" "counter_ids 65537 ! 65535 = 0" "counter_ids 65537 ! 65536 = 1"
    by simp_all
  with s(1) ids have wrap: "\<exists>s. run (many_adds 65537) (process_start 0) = Inr s \<and>
        length (assigned_ids s) = 65537 \<and>
        assigned_ids s ! 0 = 1 \<and> assigned_ids s ! 65535 = 0 \<and> assigned_ids s ! 65536 = 1"
    by (simp add: length_counter_ids)
  have reset: "\<exists>s m. add_pattern 1 POST negated 33 (rxp_init one_pattern) = Inr (0, s) \<and>
        map pat (pattern_store s) = [Some ''GET'', Some ''POST''] \<and>
        assigned_ids s = [1, 1] \<and>
        deref (mpse_store s) 1 = Inr m \<and> pats m = [1, 2] \<and>
        ruleidtbl m 1 = Some 2 \<and> dom (ruleidtbl m) = {1}"
    by (simp add: add_pattern_def escape_POST length_POST deref_def Let_def UserCtx_ctor_def
        RxpPattern_ctor_def negated_def one_instance_def one_pattern_def rxp_init_def
        assigned_ids_def)
  have "assigned_ids one_pattern = [1]"
    by (simp add: assigned_ids_def one_pattern_def)
  with wrap one_pattern_reached reset show ?thesis by (intro conjI)
qed

text \<open>
  C4. Escaping the empty byte sequence returns the null pointer, and
  \<^verbatim>\<open>add_pattern\<close> does not test for it. On an instance without patterns the call
  returns 0, takes the rule identifier 1 and stores a Pattern whose text is null; on
  an instance that holds a pattern the comparison dereferences the null pointer.
\<close>

theorem add_pattern_zero_length:
  "rxp_escape_pattern [] = None \<and>
   (\<exists>s'. add_pattern 1 [] plain 11 (snd (rxp_ctor fresh_agent (process_start 0))) = Inr (0, s') \<and>
         patterns s' = 1 \<and> get_pattern_count 1 s' = Inr 1 \<and>
         map pat (pattern_store s') = [None] \<and> map (map user \<circ> userctx) (pattern_store s') = [[11]]) \<and>
   add_pattern 1 [] plain 22 one_pattern = Inl NullDeref"
  by (simp add: rxp_escape_pattern_def add_pattern_def rxp_ctor_def process_start_def Let_def
      deref_def get_pattern_count_def RxpPattern_ctor_def UserCtx_ctor_def one_pattern_def
      one_instance_def)

text \<open>
  C5. For every byte sequence of non-zero length the escaper returns the text in which
  each byte that is not an ASCII letter or digit is the four characters backslash,
  \<open>x\<close> and its two lowercase hexadecimal digits, and each letter or digit is itself,
  in input order. The escaper is a function of the bytes alone, so equal byte
  sequences escape to equal text.
\<close>

theorem rxp_escape_pattern_spec:
  "bs \<noteq> [] \<Longrightarrow> rxp_escape_pattern bs = Some (spec_escape bs)"
  by (simp add: rxp_escape_pattern_def escape_loop_spec)

theorem rxp_escape_pattern_spec_witness:
  "[71, 69, 84, 32, 47, 255] \<noteq> ([] :: byte list) \<and>
   rxp_escape_pattern [71, 69, 84, 32, 47, 255] =
     Some [CHR ''G'', CHR ''E'', CHR ''T'', CHR 0x5C, CHR ''x'', CHR ''2'', CHR ''0'',
           CHR 0x5C, CHR ''x'', CHR ''2'', CHR ''f'', CHR 0x5C, CHR ''x'', CHR ''f'', CHR ''f'']"
proof -
  have ne: "[71, 69, 84, 32, 47, 255] \<noteq> ([] :: byte list)" by simp
  have "spec_escape [71, 69, 84, 32, 47, 255] =
     [CHR ''G'', CHR ''E'', CHR ''T'', CHR 0x5C, CHR ''x'', CHR ''2'', CHR ''0'',
      CHR 0x5C, CHR ''x'', CHR ''2'', CHR ''f'', CHR 0x5C, CHR ''x'', CHR ''f'', CHR ''f'']"
    by code_simp
  with rxp_escape_pattern_spec [OF ne] ne show ?thesis by simp
qed

text \<open>
  C6 (amended). \<^verbatim>\<open>prep_patterns\<close> on an instance whose patterns are stored
  objects returns 0 after exactly these calls into the agent, Pattern by Pattern and
  context by context: for a context with a non-null handle the negate list if its
  Pattern is negated and the match tree otherwise, each on the slot of that context,
  and then, for every context, the match tree keyed by null on its tree slot. The
  store and the environment it leaves are the ones these calls leave, in this order;
  nothing else of the process changes. Handles and negation flags are unchanged. The
  null-keyed build is made once per context, so for a Pattern as often as it has
  contexts.
\<close>

theorem prep_patterns_calls:
  assumes m: "deref (mpse_store s) this = Inr m"
    and valid: "\<forall>p\<in>set (pats m). \<exists>obj. deref (pattern_store s) p = Inr obj"
  shows "prep_patterns this sc s =
           Inr (0, s\<lparr>pattern_store :=
                        fst (foldl (agent_effect (agent m)) (pattern_store s, env s)
                               (concat (map (finalize_calls sc (pattern_store s)) (pats m)))),
                      env :=
                        snd (foldl (agent_effect (agent m)) (pattern_store s, env s)
                               (concat (map (finalize_calls sc (pattern_store s)) (pats m)))),
                      trace := trace s @ concat (map (finalize_calls sc (pattern_store s)) (pats m))\<rparr>) \<and>
         shape (fst (foldl (agent_effect (agent m)) (pattern_store s, env s)
                       (concat (map (finalize_calls sc (pattern_store s)) (pats m))))) =
           shape (pattern_store s) \<and>
         (distinct (pats m) \<longrightarrow>
            (\<forall>p\<in>set (pats m). \<forall>obj. deref (pattern_store s) p = Inr obj \<longrightarrow>
               length (filter (null_tree_for p)
                         (concat (map (finalize_calls sc (pattern_store s)) (pats m)))) =
                 length (userctx obj)))"
proof -
  let ?calls = "concat (map (finalize_calls sc (pattern_store s)) (pats m))"
  from user_ctor_pats_calls [OF valid, of "agent m" sc "env s" "trace s"]
  obtain store' e' tr' where
    r: "user_ctor_pats (agent m) sc (pats m) (pattern_store s) (env s) (trace s) = Inr (store', e', tr')"
      "tr' = trace s @ ?calls"
      "shape store' = shape (pattern_store s)"
    by (elim exE conjE)
  from user_ctor_pats_effect [OF valid r(1)]
  have F: "foldl (agent_effect (agent m)) (pattern_store s, env s) ?calls = (store', e')" .
  have run: "prep_patterns this sc s =
               Inr (0, s\<lparr>pattern_store := store', env := e', trace := trace s @ ?calls\<rparr>)"
    by (simp add: prep_patterns_def user_ctor_def m r(1) r(2))
  have count: "length (filter (null_tree_for p) ?calls) = length (userctx obj)"
    if "distinct (pats m)" "p \<in> set (pats m)" "deref (pattern_store s) p = Inr obj" for p obj
    using null_tree_pats [OF that, of sc] by simp
  show ?thesis
    unfolding F fst_conv snd_conv
  proof (intro conjI impI ballI allI)
    show "prep_patterns this sc s =
            Inr (0, s\<lparr>pattern_store := store', env := e', trace := trace s @ ?calls\<rparr>)"
      by (rule run)
    show "shape store' = shape (pattern_store s)" by (rule r(3))
  next
    fix p obj
    assume "distinct (pats m)" "p \<in> set (pats m)" "deref (pattern_store s) p = Inr obj"
    then show "length (filter (null_tree_for p) ?calls) = length (userctx obj)"
      by (rule count)
  qed
qed

theorem prep_patterns_calls_witness:
  "prep_patterns 1 3 three_rules =
     Inr (0, three_rules
          \<lparr>pattern_store :=
             [\<lparr>pat = Some ''GET'', ruleid = 1, no_case = False, negate = False,
               userctx = [\<lparr>user = 11, user_tree = 1, user_list = 0\<rparr>,
                          \<lparr>user = 22, user_tree = 3, user_list = 0\<rparr>]\<rparr>,
              \<lparr>pat = Some ''POST'', ruleid = 2, no_case = False, negate = True,
               userctx = [\<lparr>user = 33, user_tree = 6, user_list = 5\<rparr>]\<rparr>],
           env := 6,
           trace := [BuildTree 3 11 (1, 0), BuildTree 3 0 (1, 0), BuildTree 3 22 (1, 1),
                     BuildTree 3 0 (1, 1), NegateList 33 (2, 0), BuildTree 3 0 (2, 0)]\<rparr>) \<and>
   length (filter (null_tree_for 1)
             [BuildTree 3 11 (1, 0), BuildTree 3 0 (1, 0), BuildTree 3 22 (1, 1),
              BuildTree 3 0 (1, 1), NegateList 33 (2, 0), BuildTree 3 0 (2, 0)]) = 2 \<and>
   length (filter (null_tree_for 2)
             [BuildTree 3 11 (1, 0), BuildTree 3 0 (1, 0), BuildTree 3 22 (1, 1),
              BuildTree 3 0 (1, 1), NegateList 33 (2, 0), BuildTree 3 0 (2, 0)]) = 1"
proof -
  let ?m = "\<lparr>agent = fresh_agent, ruleidtbl = [1 \<mapsto> 1, 2 \<mapsto> 2], instance_id = 1, pats = [1, 2]\<rparr>
              :: nat RxpMpse"
  let ?calls = "[BuildTree 3 11 (1, 0), BuildTree 3 0 (1, 0), BuildTree 3 22 (1, 1),
                 BuildTree 3 0 (1, 1), NegateList 33 (2, 0), BuildTree 3 0 (2, 0)]"
  have valid: "\<forall>p\<in>set (pats ?m). \<exists>obj. deref (pattern_store three_rules) p = Inr obj"
    by (simp add: three_rules_def deref_def)
  have calls: "concat (map (finalize_calls 3 (pattern_store three_rules)) (pats ?m)) = ?calls"
    by (simp add: three_rules_def finalize_calls_def deref_def context_calls_def enumerate_eq_zip upt_rec)
  have eff: "foldl (agent_effect (agent ?m)) (pattern_store three_rules, env three_rules) ?calls =
       ([\<lparr>pat = Some ''GET'', ruleid = 1, no_case = False, negate = False,
               userctx = [\<lparr>user = 11, user_tree = 1, user_list = 0\<rparr>,
                          \<lparr>user = 22, user_tree = 3, user_list = 0\<rparr>]\<rparr>,
              \<lparr>pat = Some ''POST'', ruleid = 2, no_case = False, negate = True,
               userctx = [\<lparr>user = 33, user_tree = 6, user_list = 5\<rparr>]\<rparr>], 6)"
    by (simp add: three_rules_def fresh_agent_def Let_def)
  have tr: "trace three_rules = []" by (simp add: three_rules_def)
  note main = prep_patterns_calls [OF three_rules_instance valid, of 3, unfolded calls eff fst_conv snd_conv tr append_Nil]
  from main have run: "prep_patterns 1 3 three_rules =
     Inr (0, three_rules
          \<lparr>pattern_store :=
             [\<lparr>pat = Some ''GET'', ruleid = 1, no_case = False, negate = False,
               userctx = [\<lparr>user = 11, user_tree = 1, user_list = 0\<rparr>,
                          \<lparr>user = 22, user_tree = 3, user_list = 0\<rparr>]\<rparr>,
              \<lparr>pat = Some ''POST'', ruleid = 2, no_case = False, negate = True,
               userctx = [\<lparr>user = 33, user_tree = 6, user_list = 5\<rparr>]\<rparr>],
           env := 6, trace := ?calls\<rparr>)"
    by (rule conjunct1)
  from main have count: "distinct (pats ?m) \<longrightarrow>
       (\<forall>p\<in>set (pats ?m). \<forall>obj. deref (pattern_store three_rules) p = Inr obj \<longrightarrow>
          length (filter (null_tree_for p) ?calls) = length (userctx obj))"
    by (elim conjE)
  have d: "distinct (pats ?m)" "1 \<in> set (pats ?m)" "2 \<in> set (pats ?m)"
    by simp_all
  have o: "deref (pattern_store three_rules) 1 = Inr (pattern_store three_rules ! 0)"
    "deref (pattern_store three_rules) 2 = Inr (pattern_store three_rules ! 1)"
    by (simp_all add: three_rules_def deref_def)
  from count d o
  have "length (filter (null_tree_for 1) ?calls) = length (userctx (pattern_store three_rules ! 0))"
    "length (filter (null_tree_for 2) ?calls) = length (userctx (pattern_store three_rules ! 1))"
    by blast+
  then have "length (filter (null_tree_for 1) ?calls) = 2"
    "length (filter (null_tree_for 2) ?calls) = 1"
    by (simp_all add: three_rules_def)
  with run show ?thesis by (intro conjI)
qed

text \<open>
  C6 as stated fails: on the instance that holds the one Pattern \<^verbatim>\<open>"GET"\<close> with
  two contexts, the null-keyed match tree is built twice for that Pattern.
\<close>

theorem prep_patterns_once_per_pattern_counterexample:
  "\<exists>s'. prep_patterns 1 3 two_contexts = Inr (0, s') \<and>
        length (pats one_instance) = 1 \<and>
        filter (null_tree_for 1) (trace s') = [BuildTree 3 0 (1, 0), BuildTree 3 0 (1, 1)]"
  by (simp add: prep_patterns_def user_ctor_def two_contexts_def one_instance_def deref_def
      fresh_agent_def Let_def)

text \<open>
  C7. The search does not test what \<^verbatim>\<open>ruleidtbl[...]\<close> yields. On the instance
  whose one Pattern has the identifier 1, a response with one entry, of rule
  identifier 9, ends the search in the fault \<open>NullDeref\<close>: the lookup yields a
  null pointer and the loop over its contexts dereferences it. The search logs no
  diagnostic and returns no status.
\<close>

theorem rxp_search_unknown_rule_id:
  "deref (mpse_store two_contexts) 1 = Inr one_instance \<and>
   map ruleid (pattern_store two_contexts) = [1] \<and>
   dom (ruleidtbl one_instance) = {1} \<and>
   map rule_id (take (match_count unknown_rule) (match_data unknown_rule)) = [9] \<and>
   rxp_search (answering unknown_rule) 1 GET 3 stop_match 5 two_contexts = Some (Inl NullDeref)"
proof -
  note job = job_answering [of unknown_rule one_instance GET 3 two_contexts]
  have split: "take (match_count unknown_rule) (match_data unknown_rule) = [] @ GET_at_7\<lparr>rule_id := 9\<rparr> # []"
    by (simp add: unknown_rule_def)
  have pre: "\<forall>x\<in>set []. owner (ruleidtbl one_instance) (pattern_store two_contexts) x \<noteq> None"
    by simp
  have unk: "ruleidtbl one_instance (int (rule_id (GET_at_7\<lparr>rule_id := 9\<rparr>))) = None"
    by (simp add: one_instance_def)
  note two_contexts_instance
  moreover have "map ruleid (pattern_store two_contexts) = [1]"
    by (simp add: two_contexts_def)
  moreover have "dom (ruleidtbl one_instance) = {1}"
    by (simp add: one_instance_def)
  moreover have "map rule_id (take (match_count unknown_rule) (match_data unknown_rule)) = [9]"
    by (simp add: unknown_rule_def)
  moreover note rxp_search_unresolved_entry [OF two_contexts_instance job split pre unk, of stop_match 5]
  ultimately show ?thesis by (intro conjI)
qed

text \<open>
  C8 (amended). The comparison of the two counts stands inside the test
  \<^verbatim>\<open>match_count != 0\<close>. When the device answers the job with a response whose
  match count does not exceed the number of entries it holds and whose returned
  entries all have an owner among the Patterns of the instance: for a non-zero match
  count that is less than the detected match count, the search returns 0 after it
  logged the warning, added one to \<^verbatim>\<open>match_limit\<close> and dispatched exactly the
  \<^verbatim>\<open>match_count\<close> returned entries; after the job was prepared and its response
  decoded there is no other event, and no other effect on the environment than these
  callbacks and the release of the buffer. For a match count of zero the search
  returns 0 after it released the buffer, with no event after the job was prepared
  and its response decoded, and leaves \<^verbatim>\<open>match_limit\<close> as it was.
\<close>

theorem rxp_search_match_limit:
  assumes m: "deref (mpse_store s) this = Inr m"
    and prep: "rxp_prepare_job api (portid s) (jobs_submitted s + 1) buf
                 (if RXP_MAX_JOB_LENGTH api < n then RXP_MAX_JOB_LENGTH api else n)
                 (instance_id m) (env s) = (job_buf, e1)"
    and poll: "poll_responses api (portid s)
                 (rxp_dispatch_jobs api (portid s) (rxp_enqueue_job api (portid s) job_buf e1)) =
               Some (pkt, e4)"
    and dec: "rxp_get_response_data api pkt e4 = (ret, resp)"
    and inb: "match_count resp \<le> length (match_data resp)"
    and res: "\<forall>md\<in>set (take (match_count resp) (match_data resp)).
                owner (ruleidtbl m) (pattern_store s) md \<noteq> None"
  shows "(match_count resp \<noteq> 0 \<and> match_count resp < detected_match_count resp \<longrightarrow>
           rxp_search api this buf n mf pv s =
             Some (Inr (0, s\<lparr>jobs_submitted := jobs_submitted s + 1,
                              match_limit := match_limit s + 1,
                              env := rxp_free_buffer api pkt
                                (foldl (match_effect mf pv) e4
                                   (concat (map (entry_contexts (ruleidtbl m) (pattern_store s))
                                      (take (match_count resp) (match_data resp))))),
                              trace := trace s
                                @ (if RXP_MAX_JOB_LENGTH api < n
                                   then [LogTruncating n (RXP_MAX_JOB_LENGTH api)] else [])
                                @ [PrepareJob (jobs_submitted s + 1)
                                     (if RXP_MAX_JOB_LENGTH api < n then RXP_MAX_JOB_LENGTH api else n)
                                     (instance_id m)]
                                @ (if ret \<noteq> 0 then [LogDecodeError ret] else [])
                                @ [LogMatchLimit (detected_match_count resp) (match_count resp)]
                                @ map (match_event pv)
                                    (concat (map (entry_contexts (ruleidtbl m) (pattern_store s))
                                       (take (match_count resp) (match_data resp))))\<rparr>)) \<and>
           length (take (match_count resp) (match_data resp)) = match_count resp) \<and>
         (match_count resp = 0 \<longrightarrow>
           rxp_search api this buf n mf pv s =
             Some (Inr (0, s\<lparr>jobs_submitted := jobs_submitted s + 1,
                              env := rxp_free_buffer api pkt e4,
                              trace := trace s
                                @ (if RXP_MAX_JOB_LENGTH api < n
                                   then [LogTruncating n (RXP_MAX_JOB_LENGTH api)] else [])
                                @ [PrepareJob (jobs_submitted s + 1)
                                     (if RXP_MAX_JOB_LENGTH api < n then RXP_MAX_JOB_LENGTH api else n)
                                     (instance_id m)]
                                @ (if ret \<noteq> 0 then [LogDecodeError ret] else [])\<rparr>)))"
  unfolding rxp_search_returns [OF m prep poll dec inb res]
  using inb by simp

theorem rxp_search_match_limit_witness:
  "rxp_search (answering three_of_five) 1 GET 40 stop_match 5 two_contexts =
     Some (Inr (0, two_contexts\<lparr>jobs_submitted := 1, match_limit := 1, env := 6,
                     trace := [PrepareJob 1 40 1, LogMatchLimit 5 3,
                               Match 11 0 10 5 0, Match 22 0 10 5 0, Match 11 0 23 5 0,
                               Match 22 0 23 5 0, Match 11 0 33 5 0, Match 22 0 33 5 0]\<rparr>)) \<and>
   rxp_search (answering none_of_five) 1 GET 40 stop_match 5 two_contexts =
     Some (Inr (0, two_contexts\<lparr>jobs_submitted := 1, match_limit := 0, env := 0,
                     trace := [PrepareJob 1 40 1]\<rparr>))"
proof -
  have prep: "rxp_prepare_job (answering resp) (portid two_contexts)
      (jobs_submitted two_contexts + 1) GET
      (if RXP_MAX_JOB_LENGTH (answering resp) < 40 then RXP_MAX_JOB_LENGTH (answering resp) else 40)
      (instance_id one_instance) (env two_contexts) = (1, 0)" for resp
    by (simp add: answering_def two_contexts_def)
  have poll: "poll_responses (answering resp) (portid two_contexts)
      (rxp_dispatch_jobs (answering resp) (portid two_contexts)
         (rxp_enqueue_job (answering resp) (portid two_contexts) 1 0)) = Some (1, 0)" for resp
    by (rule poll_answering)
  have dec: "rxp_get_response_data (answering resp) 1 0 = (0, resp)" for resp
    by (simp add: answering_def)
  have inb: "match_count three_of_five \<le> length (match_data three_of_five)"
    by (simp add: three_of_five_def)
  have res: "\<forall>md\<in>set (take (match_count three_of_five) (match_data three_of_five)).
      owner (ruleidtbl one_instance) (pattern_store two_contexts) md \<noteq> None"
    using owner_GET [of 7] by (simp add: three_of_five_def GET_at_7_self [symmetric] owner_GET)
  have hyp: "match_count three_of_five \<noteq> 0 \<and> match_count three_of_five < detected_match_count three_of_five"
    by (simp add: three_of_five_def)
  have calls: "concat (map (entry_contexts (ruleidtbl one_instance) (pattern_store two_contexts))
             (take (match_count three_of_five) (match_data three_of_five))) =
     [(10, \<lparr>user = 11, user_tree = 0, user_list = 0\<rparr>), (10, \<lparr>user = 22, user_tree = 0, user_list = 0\<rparr>),
      (23, \<lparr>user = 11, user_tree = 0, user_list = 0\<rparr>), (23, \<lparr>user = 22, user_tree = 0, user_list = 0\<rparr>),
      (33, \<lparr>user = 11, user_tree = 0, user_list = 0\<rparr>), (33, \<lparr>user = 22, user_tree = 0, user_list = 0\<rparr>)]"
    using entry_contexts_GET [of 7]
    by (simp add: three_of_five_def GET_at_7_self [symmetric] entry_contexts_GET)
  have vals: "jobs_submitted two_contexts = 0" "match_limit two_contexts = 0"
    "trace two_contexts = []" "instance_id one_instance = 1" "env two_contexts = 0"
    "RXP_MAX_JOB_LENGTH (answering resp) = 16384" for resp
    by (simp_all add: two_contexts_def one_instance_def answering_def)
  note limit = rxp_search_match_limit [OF two_contexts_instance prep poll dec inb res,
      of stop_match 5, THEN conjunct1, THEN mp, OF hyp, THEN conjunct1]
  from limit have first: "rxp_search (answering three_of_five) 1 GET 40 stop_match 5 two_contexts =
     Some (Inr (0, two_contexts\<lparr>jobs_submitted := 1, match_limit := 1, env := 6,
                     trace := [PrepareJob 1 40 1, LogMatchLimit 5 3,
                               Match 11 0 10 5 0, Match 22 0 10 5 0, Match 11 0 23 5 0,
                               Match 22 0 23 5 0, Match 11 0 33 5 0, Match 22 0 33 5 0]\<rparr>))"
    unfolding calls
    by (simp add: vals match_event_def match_effect_def stop_match_def)
       (simp add: answering_def three_of_five_def)
  have inb0: "match_count none_of_five \<le> length (match_data none_of_five)"
    and zero: "match_count none_of_five = 0"
    by (simp_all add: none_of_five_def)
  have res0: "\<forall>md\<in>set (take (match_count none_of_five) (match_data none_of_five)).
      owner (ruleidtbl one_instance) (pattern_store two_contexts) md \<noteq> None"
    by (simp add: none_of_five_def)
  note none = rxp_search_match_limit [OF two_contexts_instance prep poll dec inb0 res0,
      of stop_match 5, THEN conjunct2, THEN mp, OF zero]
  from none have second: "rxp_search (answering none_of_five) 1 GET 40 stop_match 5 two_contexts =
     Some (Inr (0, two_contexts\<lparr>jobs_submitted := 1, match_limit := 0, env := 0,
                     trace := [PrepareJob 1 40 1]\<rparr>))"
    by (simp add: vals) (simp add: answering_def two_contexts_def)
  from first second show ?thesis by (rule conjI)
qed

text \<open>
  C8 as stated fails: for a response with detected match count 5 and match count 0
  the search logs no warning and does not count.
\<close>

theorem rxp_search_match_limit_counterexample:
  "match_count none_of_five < detected_match_count none_of_five \<and>
   (\<exists>s'. rxp_search (answering none_of_five) 1 GET 40 stop_match 5 two_contexts = Some (Inr (0, s')) \<and>
         match_limit s' = match_limit two_contexts \<and> trace s' = [PrepareJob 1 40 1])"
proof -
  have "two_contexts = two_contexts\<lparr>trace := []\<rparr>"
    by (simp add: two_contexts_def)
  then have "rxp_search (answering none_of_five) 1 GET 40 stop_match 5 two_contexts =
      Some (rxp_search_dispatch (answering none_of_five) one_instance stop_match 5 1 none_of_five
       (two_contexts\<lparr>jobs_submitted := 1, env := 0,
          trace := [] @ (if (16384::int) < 40 then [LogTruncating 40 16384] else [])
                      @ [PrepareJob 1 (if (16384::int) < 40 then 16384 else 40) 1]\<rparr>))"
    using search_two_contexts [of none_of_five 40 "[]"] by simp
  then show ?thesis
    by (simp add: rxp_search_dispatch_def none_of_five_def)
qed



text \<open>
  C10. The module reset \<^verbatim>\<open>rxp_init\<close> sets the jobs-submitted, match-limit,
  pattern-id and maximum-pattern-length counters to zero and leaves the duplicates
  counter, the instance list and the stored instances and patterns (with the rule
  identifiers they were given) as they were.
\<close>

theorem rxp_init_frame:
  "jobs_submitted (rxp_init s) = 0 \<and> match_limit (rxp_init s) = 0 \<and>
   patterns (rxp_init s) = 0 \<and> max_pattern_len (rxp_init s) = 0 \<and>
   duplicates (rxp_init s) = duplicates s \<and> instances (rxp_init s) = instances s \<and>
   mpse_store (rxp_init s) = mpse_store s \<and> pattern_store (rxp_init s) = pattern_store s \<and>
   assigned_ids (rxp_init s) = assigned_ids s \<and>
   portid (rxp_init s) = portid s \<and> env (rxp_init s) = env s \<and> trace (rxp_init s) = trace s"
  by (simp add: rxp_init_def assigned_ids_def)

end
